theory Spec2Isabelle
  imports Complex_Main "HOL-Library.Word" "HOL-Library.Monad_Syntax"
begin

unbundle bit_operations_syntax

section \<open>Single-precision values\<close>

text \<open>
  The kernels of \<^verbatim>\<open>obj_detection_util.h\<close> compute on C \<^verbatim>\<open>float\<close>, IEEE-754 binary32.
  A value is a NaN, an infinity, the negative zero \<open>NZero\<close>, or a finite number kept as
  the rational it denotes; \<open>Fin 0\<close> is the positive zero, and \<open>Fin a\<close> with \<open>a \<noteq> 0\<close> a
  nonzero number.  NaN payloads are not kept.  Arithmetic is exact arithmetic on the
  rationals followed by round-to-nearest, ties-to-even, with gradual underflow and
  overflow to infinity; the sign of a zero result follows IEEE-754.
\<close>

datatype f32 = NaN | PInf | NInf | NZero | Fin rat

fun fval :: "f32 \<Rightarrow> rat" where
  "fval (Fin a) = a"
| "fval _ = 0"

fun is_zero :: "f32 \<Rightarrow> bool" where
  "is_zero NZero = True"
| "is_zero (Fin a) = (a = 0)"
| "is_zero _ = False"

fun is_inf :: "f32 \<Rightarrow> bool" where
  "is_inf PInf = True"
| "is_inf NInf = True"
| "is_inf _ = False"

fun sign_bit :: "f32 \<Rightarrow> bool" where
  "sign_bit NInf = True"
| "sign_bit NZero = True"
| "sign_bit (Fin a) = (a < 0)"
| "sign_bit _ = False"

text \<open>The zero and the infinity of a given sign (\<open>True\<close> is negative).\<close>

definition fzero :: "bool \<Rightarrow> f32" where
  "fzero s = (if s then NZero else Fin 0)"

definition finf :: "bool \<Rightarrow> f32" where
  "finf s = (if s then NInf else PInf)"

definition pow2 :: "int \<Rightarrow> rat" where
  "pow2 e = (if 0 \<le> e then 2 ^ nat e else 1 / 2 ^ nat (- e))"

text \<open>
  \<open>binade a\<close> is the exponent \<open>e\<close> of the binade \<open>[2^e, 2^(e+1))\<close> that holds \<open>a\<close>,
  kept inside the exponent range \<open>-126 .. 127\<close> of binary32.  Between the two ends it is
  found by halving or doubling \<open>a\<close> into \<open>[1, 2)\<close>, in at most 127 steps.
\<close>

fun ilog2 :: "nat \<Rightarrow> rat \<Rightarrow> int" where
  "ilog2 0 a = 0"
| "ilog2 (Suc k) a =
     (if 2 \<le> a then ilog2 k (a / 2) + 1 else if a < 1 then ilog2 k (a * 2) - 1 else 0)"

definition binade :: "rat \<Rightarrow> int" where
  "binade a =
     (if a < pow2 (- 126) then - 126 else if pow2 127 \<le> a then 127 else ilog2 127 a)"

definition round_half_even :: "rat \<Rightarrow> int" where
  "round_half_even x =
     (let n = \<lfloor>x\<rfloor>; d = x - of_int n
      in if d < 1 / 2 then n else if 1 / 2 < d then n + 1 else if even n then n else n + 1)"

text \<open>
  Rounding to 24 significant bits: the unit in the last place of the binade is
  \<open>2^(e-23)\<close>.  A nonzero number that rounds to zero keeps its sign.
\<close>

definition round32 :: "rat \<Rightarrow> f32" where
  "round32 q =
     (let a = \<bar>q\<bar>; u = pow2 (binade a - 23); r = of_int (round_half_even (a / u)) * u
      in if pow2 128 \<le> r then finf (q < 0)
         else if r = 0 then fzero (q < 0)
         else Fin (if 0 < q then r else - r))"

text \<open>
  Addition.  An exact sum of zero is \<open>+0\<close>, unless both operands are \<open>-0\<close>.
\<close>

fun fadd :: "f32 \<Rightarrow> f32 \<Rightarrow> f32" where
  "fadd NaN _ = NaN"
| "fadd _ NaN = NaN"
| "fadd PInf NInf = NaN"
| "fadd NInf PInf = NaN"
| "fadd PInf _ = PInf"
| "fadd _ PInf = PInf"
| "fadd NInf _ = NInf"
| "fadd _ NInf = NInf"
| "fadd x y =
     (let s = fval x + fval y
      in if s = 0 then fzero (x = NZero \<and> y = NZero) else round32 s)"

fun fneg :: "f32 \<Rightarrow> f32" where
  "fneg NaN = NaN"
| "fneg PInf = NInf"
| "fneg NInf = PInf"
| "fneg NZero = Fin 0"
| "fneg (Fin a) = (if a = 0 then NZero else Fin (- a))"

definition fsub :: "f32 \<Rightarrow> f32 \<Rightarrow> f32" where
  "fsub x y = fadd x (fneg y)"

text \<open>
  Multiplication and division: the sign of the result is the exclusive or of the signs
  of the operands, also for a zero and for an infinity.
\<close>

definition fmul :: "f32 \<Rightarrow> f32 \<Rightarrow> f32" where
  "fmul x y =
     (if x = NaN \<or> y = NaN then NaN
      else
        let s = (sign_bit x \<noteq> sign_bit y)
        in if is_inf x \<or> is_inf y then (if is_zero x \<or> is_zero y then NaN else finf s)
           else if is_zero x \<or> is_zero y then fzero s
           else round32 (fval x * fval y))"

definition fdiv :: "f32 \<Rightarrow> f32 \<Rightarrow> f32" where
  "fdiv x y =
     (if x = NaN \<or> y = NaN then NaN
      else
        let s = (sign_bit x \<noteq> sign_bit y)
        in if is_inf x then (if is_inf y then NaN else finf s)
           else if is_inf y then fzero s
           else if is_zero y then (if is_zero x then NaN else finf s)
           else if is_zero x then fzero s
           else round32 (fval x / fval y))"

text \<open>
  Fused multiply-add \<open>a + b * c\<close>: the product is exact, and the sum is rounded once.
\<close>

definition ffma :: "f32 \<Rightarrow> f32 \<Rightarrow> f32 \<Rightarrow> f32" where
  "ffma a b c =
     (if a = NaN \<or> b = NaN \<or> c = NaN then NaN
      else
        let s = (sign_bit b \<noteq> sign_bit c)
        in if is_inf b \<or> is_inf c then
             (if is_zero b \<or> is_zero c then NaN
              else if is_inf a \<and> sign_bit a \<noteq> s then NaN
              else finf s)
           else if is_inf a then a
           else
             let p = fval b * fval c;
                 t = fval a + p
             in if t = 0 then fzero (p = 0 \<and> sign_bit a \<and> s) else round32 t)"

text \<open>
  The comparisons \<^verbatim>\<open><\<close> and \<^verbatim>\<open>>\<close>: false as soon as one side is a NaN, and blind to
  the sign of a zero.
\<close>

definition flt :: "f32 \<Rightarrow> f32 \<Rightarrow> bool" where
  "flt x y =
     (x \<noteq> NaN \<and> y \<noteq> NaN \<and> x \<noteq> PInf \<and> y \<noteq> NInf \<and>
      (x = NInf \<or> y = PInf \<or> fval x < fval y))"

definition fgt :: "f32 \<Rightarrow> f32 \<Rightarrow> bool" where
  "fgt x y = flt y x"

definition fle :: "f32 \<Rightarrow> f32 \<Rightarrow> bool" where
  "fle x y = (x \<noteq> NaN \<and> y \<noteq> NaN \<and> \<not> flt y x)"

text \<open>The conversion of a \<^verbatim>\<open>size_t\<close> to \<^verbatim>\<open>float\<close>.\<close>

definition f32_of_size :: "nat \<Rightarrow> f32" where
  "f32_of_size n = round32 (of_nat n)"

section \<open>Buffers, sizes and vector registers\<close>

text \<open>
  A \<^verbatim>\<open>const float*\<close> is the memory seen from that address: a function from element
  index to value.  A kernel returns the output memory it leaves behind; an element it
  does not store keeps the value it had.  Input and output buffers are distinct objects.
  A \<^verbatim>\<open>size_t\<close> is a natural number: no index computed below goes beyond \<open>count\<close>, so
  none wraps.  The one narrowing conversion, to \<^verbatim>\<open>uint32_t\<close> in \<open>min_index\<close>, is a
  conversion to a 32-bit word.
\<close>

type_synonym f32_buf = "nat \<Rightarrow> f32"
type_synonym u8_buf = "nat \<Rightarrow> 8 word"

definition buffer :: "f32 list \<Rightarrow> f32_buf" where
  "buffer xs = (\<lambda>i. if i < length xs then xs ! i else NaN)"

definition contents :: "(nat \<Rightarrow> 'a) \<Rightarrow> nat \<Rightarrow> 'a list" where
  "contents p n = map p [0..<n]"

text \<open>The array that holds 1 everywhere but for a single 0 at index \<open>n\<close>.\<close>

definition spike :: "nat \<Rightarrow> f32_buf" where
  "spike n = (\<lambda>i. if i = n then Fin 0 else Fin 1)"

text \<open>\<^verbatim>\<open>n & ~3\<close>: the two low bits cleared.\<close>

definition and_not3 :: "nat \<Rightarrow> nat" where
  "and_not3 n = n - n mod 4"

datatype 'a v2 = V2 'a 'a
datatype 'a v4 = V4 'a 'a 'a 'a
datatype 'a v8 = V8 'a 'a 'a 'a 'a 'a 'a 'a

type_synonym float32x2_t = "f32 v2"
type_synonym float32x4_t = "f32 v4"
type_synonym uint32x4_t = "32 word v4"
type_synonym uint16x4_t = "16 word v4"
type_synonym uint16x8_t = "16 word v8"
type_synonym uint8x8_t = "8 word v8"

fun lane2 :: "'a v2 \<Rightarrow> nat \<Rightarrow> 'a" where
  "lane2 (V2 a b) k = (if k = 0 then a else b)"

fun lane4 :: "'a v4 \<Rightarrow> nat \<Rightarrow> 'a" where
  "lane4 (V4 a b c d) k = (if k = 0 then a else if k = 1 then b else if k = 2 then c else d)"

fun lane8 :: "'a v8 \<Rightarrow> nat \<Rightarrow> 'a" where
  "lane8 (V8 a b c d e f g h) k =
     (if k = 0 then a else if k = 1 then b else if k = 2 then c else if k = 3 then d
      else if k = 4 then e else if k = 5 then f else if k = 6 then g else h)"

definition vdupq_n_f32 :: "f32 \<Rightarrow> float32x4_t" where
  "vdupq_n_f32 x = V4 x x x x"

definition vld1q_f32 :: "f32_buf \<Rightarrow> nat \<Rightarrow> float32x4_t" where
  "vld1q_f32 p i = V4 (p i) (p (i + 1)) (p (i + 2)) (p (i + 3))"

fun vst1q_f32 :: "f32_buf \<Rightarrow> nat \<Rightarrow> float32x4_t \<Rightarrow> f32_buf" where
  "vst1q_f32 p i (V4 a b c d) = p(i := a, i + 1 := b, i + 2 := c, i + 3 := d)"

fun vaddq_f32 :: "float32x4_t \<Rightarrow> float32x4_t \<Rightarrow> float32x4_t" where
  "vaddq_f32 (V4 a0 a1 a2 a3) (V4 b0 b1 b2 b3) =
     V4 (fadd a0 b0) (fadd a1 b1) (fadd a2 b2) (fadd a3 b3)"

fun vsubq_f32 :: "float32x4_t \<Rightarrow> float32x4_t \<Rightarrow> float32x4_t" where
  "vsubq_f32 (V4 a0 a1 a2 a3) (V4 b0 b1 b2 b3) =
     V4 (fsub a0 b0) (fsub a1 b1) (fsub a2 b2) (fsub a3 b3)"

fun vmulq_f32 :: "float32x4_t \<Rightarrow> float32x4_t \<Rightarrow> float32x4_t" where
  "vmulq_f32 (V4 a0 a1 a2 a3) (V4 b0 b1 b2 b3) =
     V4 (fmul a0 b0) (fmul a1 b1) (fmul a2 b2) (fmul a3 b3)"

text \<open>\<^verbatim>\<open>vfmaq_f32(a, b, c)\<close> is \<open>a + b * c\<close> in every lane.\<close>

fun vfmaq_f32 :: "float32x4_t \<Rightarrow> float32x4_t \<Rightarrow> float32x4_t \<Rightarrow> float32x4_t" where
  "vfmaq_f32 (V4 a0 a1 a2 a3) (V4 b0 b1 b2 b3) (V4 c0 c1 c2 c3) =
     V4 (ffma a0 b0 c0) (ffma a1 b1 c1) (ffma a2 b2 c2) (ffma a3 b3 c3)"

text \<open>
  \<^verbatim>\<open>vextq_f32(a, b, n)\<close> takes four consecutive lanes of the eight lanes \<open>a\<close> then \<open>b\<close>,
  starting at lane \<open>n\<close> of \<open>a\<close>.
\<close>

fun vextq_f32 :: "float32x4_t \<Rightarrow> float32x4_t \<Rightarrow> nat \<Rightarrow> float32x4_t" where
  "vextq_f32 (V4 a0 a1 a2 a3) (V4 b0 b1 b2 b3) n =
     (if n = 0 then V4 a0 a1 a2 a3
      else if n = 1 then V4 a1 a2 a3 b0
      else if n = 2 then V4 a2 a3 b0 b1
      else V4 a3 b0 b1 b2)"

fun vget_low_f32 :: "float32x4_t \<Rightarrow> float32x2_t" where
  "vget_low_f32 (V4 a b c d) = V2 a b"

fun vget_high_f32 :: "float32x4_t \<Rightarrow> float32x2_t" where
  "vget_high_f32 (V4 a b c d) = V2 c d"

fun vadd_f32 :: "float32x2_t \<Rightarrow> float32x2_t \<Rightarrow> float32x2_t" where
  "vadd_f32 (V2 a0 a1) (V2 b0 b1) = V2 (fadd a0 b0) (fadd a1 b1)"

text \<open>Pairwise add: neighbouring lanes of each operand are added.\<close>

fun vpadd_f32 :: "float32x2_t \<Rightarrow> float32x2_t \<Rightarrow> float32x2_t" where
  "vpadd_f32 (V2 a0 a1) (V2 b0 b1) = V2 (fadd a0 a1) (fadd b0 b1)"

definition vget_lane_f32 :: "float32x2_t \<Rightarrow> nat \<Rightarrow> f32" where
  "vget_lane_f32 v k = lane2 v k"

text \<open>A comparison sets every bit of a lane where it holds and clears the lane where not.\<close>

definition lane_mask :: "bool \<Rightarrow> 32 word" where
  "lane_mask b = (if b then - 1 else 0)"

fun vcltq_f32 :: "float32x4_t \<Rightarrow> float32x4_t \<Rightarrow> uint32x4_t" where
  "vcltq_f32 (V4 a0 a1 a2 a3) (V4 b0 b1 b2 b3) =
     V4 (lane_mask (flt a0 b0)) (lane_mask (flt a1 b1))
        (lane_mask (flt a2 b2)) (lane_mask (flt a3 b3))"

fun vcgtq_f32 :: "float32x4_t \<Rightarrow> float32x4_t \<Rightarrow> uint32x4_t" where
  "vcgtq_f32 (V4 a0 a1 a2 a3) (V4 b0 b1 b2 b3) =
     V4 (lane_mask (fgt a0 b0)) (lane_mask (fgt a1 b1))
        (lane_mask (fgt a2 b2)) (lane_mask (fgt a3 b3))"

text \<open>
  Bitwise select.  On 32-bit words it is written out bit by bit.  On floats it is the
  choice of a whole lane: the kernels only pass masks that a comparison made, all ones
  or all zeros in each lane, and for those the two agree.
\<close>

definition bsl_u32 :: "32 word \<Rightarrow> 32 word \<Rightarrow> 32 word \<Rightarrow> 32 word" where
  "bsl_u32 m a b = (m AND a) OR (NOT m AND b)"

definition bsl_f32 :: "32 word \<Rightarrow> f32 \<Rightarrow> f32 \<Rightarrow> f32" where
  "bsl_f32 m a b = (if m = - 1 then a else b)"

fun vbslq_u32 :: "uint32x4_t \<Rightarrow> uint32x4_t \<Rightarrow> uint32x4_t \<Rightarrow> uint32x4_t" where
  "vbslq_u32 (V4 m0 m1 m2 m3) (V4 a0 a1 a2 a3) (V4 b0 b1 b2 b3) =
     V4 (bsl_u32 m0 a0 b0) (bsl_u32 m1 a1 b1) (bsl_u32 m2 a2 b2) (bsl_u32 m3 a3 b3)"

fun vbslq_f32 :: "uint32x4_t \<Rightarrow> float32x4_t \<Rightarrow> float32x4_t \<Rightarrow> float32x4_t" where
  "vbslq_f32 (V4 m0 m1 m2 m3) (V4 a0 a1 a2 a3) (V4 b0 b1 b2 b3) =
     V4 (bsl_f32 m0 a0 b0) (bsl_f32 m1 a1 b1) (bsl_f32 m2 a2 b2) (bsl_f32 m3 a3 b3)"

text \<open>Narrowing keeps the low half of every lane.\<close>

fun vmovn_u32 :: "uint32x4_t \<Rightarrow> uint16x4_t" where
  "vmovn_u32 (V4 a b c d) = V4 (ucast a) (ucast b) (ucast c) (ucast d)"

fun vcombine_u16 :: "uint16x4_t \<Rightarrow> uint16x4_t \<Rightarrow> uint16x8_t" where
  "vcombine_u16 (V4 a b c d) (V4 e f g h) = V8 a b c d e f g h"

definition vdup_n_u16 :: "16 word \<Rightarrow> uint16x4_t" where
  "vdup_n_u16 x = V4 x x x x"

fun vmovn_u16 :: "uint16x8_t \<Rightarrow> uint8x8_t" where
  "vmovn_u16 (V8 a b c d e f g h) =
     V8 (ucast a) (ucast b) (ucast c) (ucast d) (ucast e) (ucast f) (ucast g) (ucast h)"

definition vget_lane_u8 :: "uint8x8_t \<Rightarrow> nat \<Rightarrow> 8 word" where
  "vget_lane_u8 v k = lane8 v k"

section \<open>Loops\<close>

text \<open>
  \<^verbatim>\<open>for (; i < stop; ++i)\<close> and \<^verbatim>\<open>for (; i < stop; i += 4)\<close> over a loop state \<open>s\<close>
  that the body updates.
\<close>

function loop1 :: "nat \<Rightarrow> nat \<Rightarrow> (nat \<Rightarrow> 's \<Rightarrow> 's) \<Rightarrow> 's \<Rightarrow> 's" where
  "loop1 i stop body s = (if i < stop then loop1 (i + 1) stop body (body i s) else s)"
  by pat_completeness auto
termination
  by (relation "measure (\<lambda>(i, stop, body, s). stop - i)") auto

function loop4 :: "nat \<Rightarrow> nat \<Rightarrow> (nat \<Rightarrow> 's \<Rightarrow> 's) \<Rightarrow> 's \<Rightarrow> 's" where
  "loop4 i stop body s = (if i < stop then loop4 (i + 4) stop body (body i s) else s)"
  by pat_completeness auto
termination
  by (relation "measure (\<lambda>(i, stop, body, s). stop - i)") auto

declare loop1.simps [simp del]
declare loop4.simps [simp del]

section \<open>The kernels\<close>

definition vector_distance_squared ::
  "float32x4_t \<Rightarrow> float32x4_t \<Rightarrow> float32x4_t \<Rightarrow> float32x4_t \<Rightarrow> float32x4_t" where
  "vector_distance_squared x1 y1 x2 y2 =
     (let dx = vsubq_f32 x2 x1;
          dy = vsubq_f32 y2 y1
      in vaddq_f32 (vmulq_f32 dx dx) (vmulq_f32 dy dy))"

subsection \<open>Weighted average\<close>

text \<open>
  The two accumulators as they stand when the tail loop ends: the weighted sum and the
  total of the weights.
\<close>

definition weighted_sums :: "f32_buf \<Rightarrow> f32_buf \<Rightarrow> nat \<Rightarrow> f32 \<times> f32" where
  "weighted_sums values weights count =
     (let sum_weighted = vdupq_n_f32 (Fin 0);
          sum_weights = vdupq_n_f32 (Fin 0);
          simd_count = and_not3 count;
          (sum_weighted, sum_weights) =
            loop4 0 simd_count
              (\<lambda>i (sum_weighted, sum_weights).
                 let vals = vld1q_f32 values i;
                     wts = vld1q_f32 weights i
                 in (vfmaq_f32 sum_weighted vals wts, vaddq_f32 sum_weights wts))
              (sum_weighted, sum_weights);
          sum_weighted_pair = vadd_f32 (vget_low_f32 sum_weighted) (vget_high_f32 sum_weighted);
          sum_weights_pair = vadd_f32 (vget_low_f32 sum_weights) (vget_high_f32 sum_weights);
          weighted_sum = vget_lane_f32 (vpadd_f32 sum_weighted_pair sum_weighted_pair) 0;
          weight_sum = vget_lane_f32 (vpadd_f32 sum_weights_pair sum_weights_pair) 0
      in loop1 simd_count count
           (\<lambda>i (weighted_sum, weight_sum).
              (fadd weighted_sum (fmul (values i) (weights i)), fadd weight_sum (weights i)))
           (weighted_sum, weight_sum))"

definition weighted_sum :: "f32_buf \<Rightarrow> f32_buf \<Rightarrow> nat \<Rightarrow> f32" where
  "weighted_sum values weights count = fst (weighted_sums values weights count)"

definition weight_sum :: "f32_buf \<Rightarrow> f32_buf \<Rightarrow> nat \<Rightarrow> f32" where
  "weight_sum values weights count = snd (weighted_sums values weights count)"

definition weighted_average :: "f32_buf \<Rightarrow> f32_buf \<Rightarrow> nat \<Rightarrow> f32" where
  "weighted_average values weights count =
     (let (weighted_sum, weight_sum) = weighted_sums values weights count
      in if fgt weight_sum (Fin 0) then fdiv weighted_sum weight_sum else Fin 0)"

subsection \<open>Cumulative sum\<close>

text \<open>The scan of one group of four: three shift-and-add steps, then the carry.\<close>

definition cumulative_sum_group :: "f32_buf \<Rightarrow> f32_buf \<Rightarrow> nat \<Rightarrow> float32x4_t" where
  "cumulative_sum_group input output i =
     (let input_vec = vld1q_f32 input i;
          prev_sum = V4 (output (i - 1)) (output (i - 1)) (output (i - 1)) (output (i - 1));
          result = input_vec;
          result = vaddq_f32 result (vextq_f32 (vdupq_n_f32 (Fin 0)) result 3);
          result = vaddq_f32 result (vextq_f32 (vdupq_n_f32 (Fin 0)) result 2);
          result = vaddq_f32 result (vextq_f32 (vdupq_n_f32 (Fin 0)) result 1);
          result = vaddq_f32 result prev_sum
      in result)"

text \<open>The loop over the groups; its \<^verbatim>\<open>else\<close> branch runs the scalar loop and breaks.\<close>

function cumulative_sum_loop :: "f32_buf \<Rightarrow> nat \<Rightarrow> nat \<Rightarrow> nat \<Rightarrow> f32_buf \<Rightarrow> f32_buf" where
  "cumulative_sum_loop input count simd_count i output =
     (if i < simd_count then
        (let remaining = count - i
         in if 4 \<le> remaining then
              cumulative_sum_loop input count simd_count (i + 4)
                (vst1q_f32 output i (cumulative_sum_group input output i))
            else
              loop1 i count (\<lambda>j output. output(j := fadd (output (j - 1)) (input j))) output)
      else output)"
  by pat_completeness auto
termination
  by (relation "measure (\<lambda>(input, count, simd_count, i, output). simd_count - i)") auto

declare cumulative_sum_loop.simps [simp del]

definition cumulative_sum :: "f32_buf \<Rightarrow> f32_buf \<Rightarrow> nat \<Rightarrow> f32_buf" where
  "cumulative_sum input output count =
     (if count = 0 then output
      else
        let output = output(0 := input 0);
            simd_count = and_not3 (count - 1) + 1
        in cumulative_sum_loop input count simd_count 1 output)"

subsection \<open>Speed\<close>

definition speed :: "f32_buf \<Rightarrow> f32_buf \<Rightarrow> f32_buf \<Rightarrow> nat \<Rightarrow> f32 \<Rightarrow> f32_buf" where
  "speed positions_prev positions_curr speeds count time_delta =
     (let time_inv = vdupq_n_f32 (fdiv (Fin 1) time_delta);
          simd_count = and_not3 count;
          speeds =
            loop4 0 simd_count
              (\<lambda>i speeds.
                 let prev = vld1q_f32 positions_prev i;
                     curr = vld1q_f32 positions_curr i;
                     diff = vsubq_f32 curr prev;
                     speed4 = vmulq_f32 diff time_inv
                 in vst1q_f32 speeds i speed4)
              speeds
      in loop1 simd_count count
           (\<lambda>i speeds. speeds(i := fdiv (fsub (positions_curr i) (positions_prev i)) time_delta))
           speeds)"

subsection \<open>Moving average\<close>

text \<open>
  The window of one index.  The lane loop leaves \<open>j\<close> at \<open>simd_end\<close>, a multiple of four
  past \<open>start\<close>, and the scalar loop goes on from there.
\<close>

definition moving_average_at :: "f32_buf \<Rightarrow> nat \<Rightarrow> nat \<Rightarrow> f32" where
  "moving_average_at input window_size i =
     (let start = (if window_size \<le> i then i - window_size + 1 else 0);
          end_idx = i + 1;
          actual_window = end_idx - start;
          sum4 = vdupq_n_f32 (Fin 0);
          simd_end = start + and_not3 actual_window;
          sum4 = loop4 start simd_end (\<lambda>j sum4. vaddq_f32 sum4 (vld1q_f32 input j)) sum4;
          sum_pair = vadd_f32 (vget_low_f32 sum4) (vget_high_f32 sum4);
          total = vget_lane_f32 (vpadd_f32 sum_pair sum_pair) 0;
          total = loop1 simd_end end_idx (\<lambda>j total. fadd total (input j)) total
      in fdiv total (f32_of_size actual_window))"

definition moving_average_filter :: "f32_buf \<Rightarrow> f32_buf \<Rightarrow> nat \<Rightarrow> nat \<Rightarrow> f32_buf" where
  "moving_average_filter input output count window_size =
     (if window_size = 0 \<or> count = 0 then output
      else
        let scale = fdiv (Fin 1) (f32_of_size window_size);
            scale_vec = vdupq_n_f32 scale
        in loop1 0 count
             (\<lambda>i output. output(i := moving_average_at input window_size i))
             output)"

subsection \<open>Index of the minimum\<close>

text \<open>
  The body of the lane loop: where an element of the group is strictly less than the
  lane's minimum so far, it replaces the minimum, and its index, narrowed to 32 bits,
  replaces the lane's index.
\<close>

definition min_index_step ::
  "f32_buf \<Rightarrow> nat \<Rightarrow> float32x4_t \<times> uint32x4_t \<Rightarrow> float32x4_t \<times> uint32x4_t" where
  "min_index_step array i =
     (\<lambda>(min_vec, min_idx_vec).
        let data = vld1q_f32 array i;
            curr_idx = V4 (word_of_nat i) (word_of_nat (i + 1))
                          (word_of_nat (i + 2)) (word_of_nat (i + 3));
            cmp = vcltq_f32 data min_vec
        in (vbslq_f32 cmp data min_vec, vbslq_u32 cmp curr_idx min_idx_vec))"

text \<open>The lane loop, seeded with the first four elements and the indices 0, 1, 2, 3.\<close>

definition min_index_lanes :: "f32_buf \<Rightarrow> nat \<Rightarrow> float32x4_t \<times> uint32x4_t" where
  "min_index_lanes array simd_count =
     (let min_vec = vld1q_f32 array 0;
          idx_vec = V4 0 1 2 3;
          min_idx_vec = idx_vec
      in loop4 4 simd_count (min_index_step array) (min_vec, min_idx_vec))"

text \<open>The four lane candidates against the running scalar minimum, lane 0 first.\<close>

definition min_index_collapse :: "float32x4_t \<times> uint32x4_t \<Rightarrow> f32 \<times> nat \<Rightarrow> f32 \<times> nat" where
  "min_index_collapse lanes start =
     (let (values, indices) = lanes
      in loop1 0 4
           (\<lambda>i (min_val, min_idx).
              if flt (lane4 values i) min_val then (lane4 values i, unat (lane4 indices i))
              else (min_val, min_idx))
           start)"

definition min_index :: "f32_buf \<Rightarrow> nat \<Rightarrow> nat" where
  "min_index array count =
     (if count = 0 then 0
      else
        let min_val = array 0;
            min_idx = 0;
            simd_count = and_not3 count;
            (min_val, min_idx) =
              (if 4 \<le> simd_count
               then min_index_collapse (min_index_lanes array simd_count) (min_val, min_idx)
               else (min_val, min_idx));
            (min_val, min_idx) =
              loop1 simd_count count
                (\<lambda>i (min_val, min_idx).
                   if flt (array i) min_val then (array i, i) else (min_val, min_idx))
                (min_val, min_idx)
        in min_idx)"

subsection \<open>Dot product\<close>

definition cross_correlation :: "f32_buf \<Rightarrow> f32_buf \<Rightarrow> nat \<Rightarrow> f32" where
  "cross_correlation signal1 signal2 len =
     (let sum4 = vdupq_n_f32 (Fin 0);
          simd_count = and_not3 len;
          sum4 =
            loop4 0 simd_count
              (\<lambda>i sum4.
                 let s1 = vld1q_f32 signal1 i;
                     s2 = vld1q_f32 signal2 i
                 in vfmaq_f32 sum4 s1 s2)
              sum4;
          sum_pair = vadd_f32 (vget_low_f32 sum4) (vget_high_f32 sum4);
          result = vget_lane_f32 (vpadd_f32 sum_pair sum_pair) 0
      in loop1 simd_count len (\<lambda>i result. fadd result (fmul (signal1 i) (signal2 i))) result)"

subsection \<open>Exponential moving average\<close>

definition exp_moving_average :: "f32_buf \<Rightarrow> f32_buf \<Rightarrow> nat \<Rightarrow> f32 \<Rightarrow> f32_buf" where
  "exp_moving_average input output count alpha =
     (if count = 0 then output
      else
        let alpha_vec = vdupq_n_f32 alpha;
            one_minus_alpha = vdupq_n_f32 (fsub (Fin 1) alpha);
            output = output(0 := input 0)
        in loop1 1 count
             (\<lambda>i output.
                output(i := fadd (fmul alpha (input i))
                                 (fmul (fsub (Fin 1) alpha) (output (i - 1)))))
             output)"

subsection \<open>Threshold detection\<close>

definition threshold_detection :: "f32_buf \<Rightarrow> u8_buf \<Rightarrow> nat \<Rightarrow> f32 \<Rightarrow> u8_buf" where
  "threshold_detection sensor_data detections count threshold =
     (let thresh_vec = vdupq_n_f32 threshold;
          simd_count = and_not3 count;
          detections =
            loop4 0 simd_count
              (\<lambda>i detections.
                 let data = vld1q_f32 sensor_data i;
                     cmp = vcgtq_f32 data thresh_vec;
                     mask16 = vmovn_u32 cmp;
                     mask8 = vmovn_u16 (vcombine_u16 mask16 (vdup_n_u16 0))
                 in detections
                      (i := (if vget_lane_u8 mask8 0 \<noteq> 0 then 1 else 0),
                       i + 1 := (if vget_lane_u8 mask8 1 \<noteq> 0 then 1 else 0),
                       i + 2 := (if vget_lane_u8 mask8 2 \<noteq> 0 then 1 else 0),
                       i + 3 := (if vget_lane_u8 mask8 3 \<noteq> 0 then 1 else 0)))
              detections
      in loop1 simd_count count
           (\<lambda>i detections. detections(i := (if fgt (sensor_data i) threshold then 1 else 0)))
           detections)"

section \<open>The sums of the weighted average, from the inputs\<close>

text \<open>
  The two sums as the description of the kernel gives them, without its loops: the
  elements below \<open>count & ~3\<close> are accumulated lane-wise from 0, lane \<open>k\<close> taking the
  positions \<open>k, k + 4, k + 8, ...\<close> in order, the weighted sum by fused multiply-add and
  the weight total by addition; the four lanes are reduced horizontally, as
  \<open>(l0 + l2) + (l1 + l3)\<close>; the tail elements are then added in order to the same two
  accumulators, each product rounded before it is added.
\<close>

definition lane_positions :: "nat \<Rightarrow> nat \<Rightarrow> nat list" where
  "lane_positions n k = map (\<lambda>m. 4 * m + k) [0..<n div 4]"

definition spec_lane_weight :: "f32_buf \<Rightarrow> nat \<Rightarrow> nat \<Rightarrow> f32" where
  "spec_lane_weight weights n k =
     foldl (\<lambda>acc i. fadd acc (weights i)) (Fin 0) (lane_positions n k)"

definition spec_lane_weighted :: "f32_buf \<Rightarrow> f32_buf \<Rightarrow> nat \<Rightarrow> nat \<Rightarrow> f32" where
  "spec_lane_weighted values weights n k =
     foldl (\<lambda>acc i. ffma acc (values i) (weights i)) (Fin 0) (lane_positions n k)"

definition spec_horizontal :: "(nat \<Rightarrow> f32) \<Rightarrow> f32" where
  "spec_horizontal l = fadd (fadd (l 0) (l 2)) (fadd (l 1) (l 3))"

definition spec_weight_total :: "f32_buf \<Rightarrow> nat \<Rightarrow> f32" where
  "spec_weight_total weights count =
     foldl (\<lambda>acc i. fadd acc (weights i))
       (spec_horizontal (spec_lane_weight weights (and_not3 count)))
       [and_not3 count..<count]"

definition spec_weighted_total :: "f32_buf \<Rightarrow> f32_buf \<Rightarrow> nat \<Rightarrow> f32" where
  "spec_weighted_total values weights count =
     foldl (\<lambda>acc i. fadd acc (fmul (values i) (weights i)))
       (spec_horizontal (spec_lane_weighted values weights (and_not3 count)))
       [and_not3 count..<count]"

section \<open>The kernels on buffers of known extent\<close>

text \<open>
  Whether a kernel touches a buffer at all cannot be read off a function from indices to
  values.  Here a buffer is the list of the elements that exist at its address, and every
  access of the source is checked against it: a load or a store at an index the buffer
  does not have is a fault, the result \<open>None\<close>, and a fault ends the kernel.  The kernels
  are the same source functions again, line by line, with \<^verbatim>\<open>p[i]\<close>, \<^verbatim>\<open>vld1q_f32\<close> and
  \<^verbatim>\<open>vst1q_f32\<close> as checked accesses; a kernel that returns \<open>Some\<close> result has made no
  access outside its buffers.
\<close>

definition load :: "'a list \<Rightarrow> nat \<Rightarrow> 'a option" where
  "load p i = (if i < length p then Some (p ! i) else None)"

definition store :: "'a list \<Rightarrow> nat \<Rightarrow> 'a \<Rightarrow> 'a list option" where
  "store p i v = (if i < length p then Some (p[i := v]) else None)"

text \<open>A buffer \<open>p\<close> holds the values of \<open>f\<close> on the indices it has.\<close>

definition holds :: "'a list \<Rightarrow> (nat \<Rightarrow> 'a) \<Rightarrow> bool" where
  "holds p f = (p = map f [0..<length p])"

definition load4 :: "f32 list \<Rightarrow> nat \<Rightarrow> float32x4_t option" where
  "load4 p i =
     do {
       a \<leftarrow> load p i;
       b \<leftarrow> load p (i + 1);
       c \<leftarrow> load p (i + 2);
       d \<leftarrow> load p (i + 3);
       Some (V4 a b c d)
     }"

fun store4 :: "f32 list \<Rightarrow> nat \<Rightarrow> float32x4_t \<Rightarrow> f32 list option" where
  "store4 p i (V4 a b c d) =
     do {
       p \<leftarrow> store p i a;
       p \<leftarrow> store p (i + 1) b;
       p \<leftarrow> store p (i + 2) c;
       store p (i + 3) d
     }"

function loop1_checked :: "nat \<Rightarrow> nat \<Rightarrow> (nat \<Rightarrow> 's \<Rightarrow> 's option) \<Rightarrow> 's \<Rightarrow> 's option" where
  "loop1_checked i stop body s =
     (if i < stop
      then (case body i s of None \<Rightarrow> None | Some s' \<Rightarrow> loop1_checked (i + 1) stop body s')
      else Some s)"
  by pat_completeness auto
termination
  by (relation "measure (\<lambda>(i, stop, body, s). stop - i)") auto

function loop4_checked :: "nat \<Rightarrow> nat \<Rightarrow> (nat \<Rightarrow> 's \<Rightarrow> 's option) \<Rightarrow> 's \<Rightarrow> 's option" where
  "loop4_checked i stop body s =
     (if i < stop
      then (case body i s of None \<Rightarrow> None | Some s' \<Rightarrow> loop4_checked (i + 4) stop body s')
      else Some s)"
  by pat_completeness auto
termination
  by (relation "measure (\<lambda>(i, stop, body, s). stop - i)") auto

declare loop1_checked.simps [simp del]
declare loop4_checked.simps [simp del]

definition weighted_average_checked :: "f32 list \<Rightarrow> f32 list \<Rightarrow> nat \<Rightarrow> f32 option" where
  "weighted_average_checked values weights count =
     do {
       let sum_weighted = vdupq_n_f32 (Fin 0);
       let sum_weights = vdupq_n_f32 (Fin 0);
       let simd_count = and_not3 count;
       (sum_weighted, sum_weights) \<leftarrow>
         loop4_checked 0 simd_count
           (\<lambda>i (sum_weighted, sum_weights).
              do {
                vals \<leftarrow> load4 values i;
                wts \<leftarrow> load4 weights i;
                Some (vfmaq_f32 sum_weighted vals wts, vaddq_f32 sum_weights wts)
              })
           (sum_weighted, sum_weights);
       let sum_weighted_pair = vadd_f32 (vget_low_f32 sum_weighted) (vget_high_f32 sum_weighted);
       let sum_weights_pair = vadd_f32 (vget_low_f32 sum_weights) (vget_high_f32 sum_weights);
       let weighted_sum = vget_lane_f32 (vpadd_f32 sum_weighted_pair sum_weighted_pair) 0;
       let weight_sum = vget_lane_f32 (vpadd_f32 sum_weights_pair sum_weights_pair) 0;
       (weighted_sum, weight_sum) \<leftarrow>
         loop1_checked simd_count count
           (\<lambda>i (weighted_sum, weight_sum).
              do {
                v \<leftarrow> load values i;
                w \<leftarrow> load weights i;
                Some (fadd weighted_sum (fmul v w), fadd weight_sum w)
              })
           (weighted_sum, weight_sum);
       Some (if fgt weight_sum (Fin 0) then fdiv weighted_sum weight_sum else Fin 0)
     }"

definition cumulative_sum_group_checked :: "f32 list \<Rightarrow> f32 list \<Rightarrow> nat \<Rightarrow> float32x4_t option" where
  "cumulative_sum_group_checked input output i =
     do {
       input_vec \<leftarrow> load4 input i;
       prev \<leftarrow> load output (i - 1);
       let prev_sum = V4 prev prev prev prev;
       let result = input_vec;
       let result = vaddq_f32 result (vextq_f32 (vdupq_n_f32 (Fin 0)) result 3);
       let result = vaddq_f32 result (vextq_f32 (vdupq_n_f32 (Fin 0)) result 2);
       let result = vaddq_f32 result (vextq_f32 (vdupq_n_f32 (Fin 0)) result 1);
       let result = vaddq_f32 result prev_sum;
       Some result
     }"

function cumulative_sum_loop_checked ::
  "f32 list \<Rightarrow> nat \<Rightarrow> nat \<Rightarrow> nat \<Rightarrow> f32 list \<Rightarrow> f32 list option" where
  "cumulative_sum_loop_checked input count simd_count i output =
     (if i < simd_count then
        (let remaining = count - i
         in if 4 \<le> remaining then
              (case cumulative_sum_group_checked input output i \<bind> store4 output i of
                 None \<Rightarrow> None
               | Some output' \<Rightarrow> cumulative_sum_loop_checked input count simd_count (i + 4) output')
            else
              loop1_checked i count
                (\<lambda>j output.
                   do {
                     prev \<leftarrow> load output (j - 1);
                     x \<leftarrow> load input j;
                     store output j (fadd prev x)
                   })
                output)
      else Some output)"
  by pat_completeness auto
termination
  by (relation "measure (\<lambda>(input, count, simd_count, i, output). simd_count - i)") auto

declare cumulative_sum_loop_checked.simps [simp del]

definition cumulative_sum_checked :: "f32 list \<Rightarrow> f32 list \<Rightarrow> nat \<Rightarrow> f32 list option" where
  "cumulative_sum_checked input output count =
     (if count = 0 then Some output
      else
        do {
          x \<leftarrow> load input 0;
          output \<leftarrow> store output 0 x;
          let simd_count = and_not3 (count - 1) + 1;
          cumulative_sum_loop_checked input count simd_count 1 output
        })"

definition speed_checked ::
  "f32 list \<Rightarrow> f32 list \<Rightarrow> f32 list \<Rightarrow> nat \<Rightarrow> f32 \<Rightarrow> f32 list option" where
  "speed_checked positions_prev positions_curr speeds count time_delta =
     do {
       let time_inv = vdupq_n_f32 (fdiv (Fin 1) time_delta);
       let simd_count = and_not3 count;
       speeds \<leftarrow>
         loop4_checked 0 simd_count
           (\<lambda>i speeds.
              do {
                prev \<leftarrow> load4 positions_prev i;
                curr \<leftarrow> load4 positions_curr i;
                let diff = vsubq_f32 curr prev;
                let speed4 = vmulq_f32 diff time_inv;
                store4 speeds i speed4
              })
           speeds;
       loop1_checked simd_count count
         (\<lambda>i speeds.
            do {
              c \<leftarrow> load positions_curr i;
              p \<leftarrow> load positions_prev i;
              store speeds i (fdiv (fsub c p) time_delta)
            })
         speeds
     }"

definition moving_average_at_checked :: "f32 list \<Rightarrow> nat \<Rightarrow> nat \<Rightarrow> f32 option" where
  "moving_average_at_checked input window_size i =
     do {
       let start = (if window_size \<le> i then i - window_size + 1 else 0);
       let end_idx = i + 1;
       let actual_window = end_idx - start;
       let sum4 = vdupq_n_f32 (Fin 0);
       let simd_end = start + and_not3 actual_window;
       sum4 \<leftarrow>
         loop4_checked start simd_end
           (\<lambda>j sum4. do { data \<leftarrow> load4 input j; Some (vaddq_f32 sum4 data) })
           sum4;
       let sum_pair = vadd_f32 (vget_low_f32 sum4) (vget_high_f32 sum4);
       let total = vget_lane_f32 (vpadd_f32 sum_pair sum_pair) 0;
       total \<leftarrow>
         loop1_checked simd_end end_idx
           (\<lambda>j total. do { x \<leftarrow> load input j; Some (fadd total x) })
           total;
       Some (fdiv total (f32_of_size actual_window))
     }"

definition moving_average_filter_checked ::
  "f32 list \<Rightarrow> f32 list \<Rightarrow> nat \<Rightarrow> nat \<Rightarrow> f32 list option" where
  "moving_average_filter_checked input output count window_size =
     (if window_size = 0 \<or> count = 0 then Some output
      else
        do {
          let scale = fdiv (Fin 1) (f32_of_size window_size);
          let scale_vec = vdupq_n_f32 scale;
          loop1_checked 0 count
            (\<lambda>i output.
               do {
                 m \<leftarrow> moving_average_at_checked input window_size i;
                 store output i m
               })
            output
        })"

definition min_index_step_checked ::
  "f32 list \<Rightarrow> nat \<Rightarrow> float32x4_t \<times> uint32x4_t \<Rightarrow> (float32x4_t \<times> uint32x4_t) option" where
  "min_index_step_checked array i =
     (\<lambda>(min_vec, min_idx_vec).
        do {
          data \<leftarrow> load4 array i;
          let curr_idx = V4 (word_of_nat i) (word_of_nat (i + 1))
                            (word_of_nat (i + 2)) (word_of_nat (i + 3));
          let cmp = vcltq_f32 data min_vec;
          Some (vbslq_f32 cmp data min_vec, vbslq_u32 cmp curr_idx min_idx_vec)
        })"

definition min_index_checked :: "f32 list \<Rightarrow> nat \<Rightarrow> nat option" where
  "min_index_checked array count =
     (if count = 0 then Some 0
      else
        do {
          min_val \<leftarrow> load array 0;
          let min_idx = 0;
          let simd_count = and_not3 count;
          (min_val, min_idx) \<leftarrow>
            (if 4 \<le> simd_count
             then
               do {
                 min_vec \<leftarrow> load4 array 0;
                 let idx_vec = V4 0 1 2 3;
                 let min_idx_vec = idx_vec;
                 lanes \<leftarrow>
                   loop4_checked 4 simd_count (min_index_step_checked array)
                     (min_vec, min_idx_vec);
                 Some (min_index_collapse lanes (min_val, min_idx))
               }
             else Some (min_val, min_idx));
          (min_val, min_idx) \<leftarrow>
            loop1_checked simd_count count
              (\<lambda>i (min_val, min_idx).
                 do {
                   x \<leftarrow> load array i;
                   Some (if flt x min_val then (x, i) else (min_val, min_idx))
                 })
              (min_val, min_idx);
          Some min_idx
        })"

definition cross_correlation_checked :: "f32 list \<Rightarrow> f32 list \<Rightarrow> nat \<Rightarrow> f32 option" where
  "cross_correlation_checked signal1 signal2 len =
     do {
       let sum4 = vdupq_n_f32 (Fin 0);
       let simd_count = and_not3 len;
       sum4 \<leftarrow>
         loop4_checked 0 simd_count
           (\<lambda>i sum4.
              do {
                s1 \<leftarrow> load4 signal1 i;
                s2 \<leftarrow> load4 signal2 i;
                Some (vfmaq_f32 sum4 s1 s2)
              })
           sum4;
       let sum_pair = vadd_f32 (vget_low_f32 sum4) (vget_high_f32 sum4);
       let result = vget_lane_f32 (vpadd_f32 sum_pair sum_pair) 0;
       loop1_checked simd_count len
         (\<lambda>i result.
            do {
              a \<leftarrow> load signal1 i;
              b \<leftarrow> load signal2 i;
              Some (fadd result (fmul a b))
            })
         result
     }"

definition exp_moving_average_checked ::
  "f32 list \<Rightarrow> f32 list \<Rightarrow> nat \<Rightarrow> f32 \<Rightarrow> f32 list option" where
  "exp_moving_average_checked input output count alpha =
     (if count = 0 then Some output
      else
        do {
          let alpha_vec = vdupq_n_f32 alpha;
          let one_minus_alpha = vdupq_n_f32 (fsub (Fin 1) alpha);
          x \<leftarrow> load input 0;
          output \<leftarrow> store output 0 x;
          loop1_checked 1 count
            (\<lambda>i output.
               do {
                 x \<leftarrow> load input i;
                 prev \<leftarrow> load output (i - 1);
                 store output i (fadd (fmul alpha x) (fmul (fsub (Fin 1) alpha) prev))
               })
            output
        })"

definition threshold_detection_checked ::
  "f32 list \<Rightarrow> 8 word list \<Rightarrow> nat \<Rightarrow> f32 \<Rightarrow> 8 word list option" where
  "threshold_detection_checked sensor_data detections count threshold =
     do {
       let thresh_vec = vdupq_n_f32 threshold;
       let simd_count = and_not3 count;
       detections \<leftarrow>
         loop4_checked 0 simd_count
           (\<lambda>i detections.
              do {
                data \<leftarrow> load4 sensor_data i;
                let cmp = vcgtq_f32 data thresh_vec;
                let mask16 = vmovn_u32 cmp;
                let mask8 = vmovn_u16 (vcombine_u16 mask16 (vdup_n_u16 0));
                detections \<leftarrow> store detections i (if vget_lane_u8 mask8 0 \<noteq> 0 then 1 else 0);
                detections \<leftarrow> store detections (i + 1) (if vget_lane_u8 mask8 1 \<noteq> 0 then 1 else 0);
                detections \<leftarrow> store detections (i + 2) (if vget_lane_u8 mask8 2 \<noteq> 0 then 1 else 0);
                store detections (i + 3) (if vget_lane_u8 mask8 3 \<noteq> 0 then 1 else 0)
              })
           detections;
       loop1_checked simd_count count
         (\<lambda>i detections.
            do {
              x \<leftarrow> load sensor_data i;
              store detections i (if fgt x threshold then 1 else 0)
            })
         detections
     }"

section \<open>Facts about single-precision values\<close>

lemma fzero_simps [simp]: "fzero False = Fin 0" "fzero True = NZero"
  by (simp_all add: fzero_def)

lemma finf_simps [simp]: "finf False = PInf" "finf True = NInf"
  by (simp_all add: finf_def)

lemma round32_zero: "round32 0 = Fin 0"
  by code_simp

lemma fadd_pos_zero [simp]: "fadd (Fin 0) (Fin 0) = Fin 0"
  by simp

lemma fadd_NaN_right [simp]: "fadd x NaN = NaN"
  by (cases x) simp_all

lemma flt_NaN [simp]: "\<not> flt NaN y" "\<not> flt x NaN"
  by (simp_all add: flt_def)

lemma flt_Fin [simp]: "flt (Fin a) (Fin b) = (a < b)"
  by (simp add: flt_def)

lemma flt_irrefl: "\<not> flt x x"
  by (auto simp: flt_def)

lemma flt_trans: "flt x y \<Longrightarrow> flt y z \<Longrightarrow> flt x z"
  by (auto simp: flt_def)

lemma flt_below: "flt x y \<Longrightarrow> \<not> flt z y \<Longrightarrow> y \<noteq> NaN \<Longrightarrow> z \<noteq> NaN \<Longrightarrow> flt x z"
  by (cases z; cases y) (auto simp: flt_def)

lemma not_flt_trans:
  "\<not> flt y x \<Longrightarrow> \<not> flt z y \<Longrightarrow> x \<noteq> NaN \<Longrightarrow> y \<noteq> NaN \<Longrightarrow> z \<noteq> NaN \<Longrightarrow> \<not> flt z x"
  by (cases x; cases y; cases z) (auto simp: flt_def)

section \<open>The binade of a value\<close>

text \<open>
  For a value in the range of the normal numbers, \<open>binade\<close> is the exponent of the power
  of two just below it, so that rounding keeps 24 significant bits.
\<close>

lemma pow2_pos: "0 < pow2 e"
  by (simp add: pow2_def)

lemma pow2_Suc: "pow2 (e + 1) = 2 * pow2 e"
proof (cases "0 \<le> e")
  case True
  then show ?thesis by (simp add: pow2_def nat_add_distrib)
next
  case False
  then have "nat (- e) = Suc (nat (- (e + 1)))" by simp
  with False show ?thesis by (auto simp: pow2_def)
qed

lemma ilog2_bounds:
  "pow2 (- int k) \<le> a \<Longrightarrow> a < pow2 (int k + 1) \<Longrightarrow>
   pow2 (ilog2 k a) \<le> a \<and> a < pow2 (ilog2 k a + 1)"
proof (induction k arbitrary: a)
  case 0
  then show ?case by (simp add: pow2_def)
next
  case (Suc k)
  have up: "pow2 (int (Suc k) + 1) = 2 * pow2 (int k + 1)"
    using pow2_Suc [of "int k + 1"] by (simp add: add.commute)
  have down: "pow2 (- int k) = 2 * pow2 (- int (Suc k))"
    using pow2_Suc [of "- int (Suc k)"] by simp
  consider "2 \<le> a" | "a < 1" | "1 \<le> a" "a < 2" by linarith
  then show ?case
  proof cases
    case 1
    have "pow2 (- int k) \<le> 1" by (simp add: pow2_def)
    with 1 have "pow2 (- int k) \<le> a / 2" by simp
    moreover from Suc.prems(2) have "a < 2 * pow2 (int k + 1)" unfolding up .
    then have "a / 2 < pow2 (int k + 1)" by simp
    ultimately have "pow2 (ilog2 k (a / 2)) \<le> a / 2 \<and> a / 2 < pow2 (ilog2 k (a / 2) + 1)"
      by (rule Suc.IH)
    with 1 show ?thesis
      using pow2_Suc [of "ilog2 k (a / 2)"] pow2_Suc [of "ilog2 k (a / 2) + 1"] by simp
  next
    case 2
    from Suc.prems(1) have "pow2 (- int k) \<le> 2 * a" unfolding down by simp
    then have "pow2 (- int k) \<le> a * 2" by simp
    moreover have "(2::rat) \<le> pow2 (int k + 1)" by (simp add: pow2_def nat_add_distrib)
    with 2 have "a * 2 < pow2 (int k + 1)" by simp
    ultimately have "pow2 (ilog2 k (a * 2)) \<le> a * 2 \<and> a * 2 < pow2 (ilog2 k (a * 2) + 1)"
      by (rule Suc.IH)
    with 2 show ?thesis
      using pow2_Suc [of "ilog2 k (a * 2) - 1"] pow2_Suc [of "ilog2 k (a * 2)"] by simp
  next
    case 3
    then show ?thesis by (simp add: pow2_def)
  qed
qed

lemma binade_bounds:
  assumes "pow2 (- 126) \<le> a" and "a < pow2 128"
  shows "pow2 (binade a) \<le> a \<and> a < pow2 (binade a + 1)"
proof (cases "pow2 127 \<le> a")
  case True
  with assms show ?thesis by (simp add: binade_def)
next
  case False
  have "pow2 (- int 127) \<le> pow2 (- 126)" by (simp add: pow2_def)
  with assms(1) have "pow2 (- int 127) \<le> a" by simp
  moreover from assms(2) have "a < pow2 (int 127 + 1)" by simp
  ultimately have "pow2 (ilog2 127 a) \<le> a \<and> a < pow2 (ilog2 127 a + 1)"
    by (rule ilog2_bounds)
  with False assms(1) show ?thesis by (simp add: binade_def)
qed

section \<open>Facts about sizes, lanes and loops\<close>

lemma loop1_done: "\<not> i < stop \<Longrightarrow> loop1 i stop body s = s"
  by (simp add: loop1.simps)

lemma loop4_done: "\<not> i < stop \<Longrightarrow> loop4 i stop body s = s"
  by (simp add: loop4.simps)

lemma loop1_step: "i < stop \<Longrightarrow> loop1 i stop body s = loop1 (i + 1) stop body (body i s)"
  by (subst loop1.simps) simp

lemma loop4_step: "i < stop \<Longrightarrow> loop4 i stop body s = loop4 (i + 4) stop body (body i s)"
  by (subst loop4.simps) simp

lemma and_not3_zero: "and_not3 0 = 0"
  by (simp add: and_not3_def)

lemma loop1_rule:
  assumes "i \<le> stop" and "P i s"
    and "\<And>j t. i \<le> j \<Longrightarrow> j < stop \<Longrightarrow> P j t \<Longrightarrow> P (j + 1) (body j t)"
  shows "P stop (loop1 i stop body s)"
  using assms
proof (induction "stop - i" arbitrary: i s)
  case 0
  then show ?case by (simp add: loop1_done)
next
  case (Suc n)
  then have lt: "i < stop" by simp
  have "P stop (loop1 (i + 1) stop body (body i s))"
  proof (rule Suc.hyps(1))
    show "n = stop - (i + 1)" using Suc.hyps(2) by simp
    show "i + 1 \<le> stop" using lt by simp
    show "P (i + 1) (body i s)" using Suc.prems(2,3) lt by simp
    show "\<And>j t. i + 1 \<le> j \<Longrightarrow> j < stop \<Longrightarrow> P j t \<Longrightarrow> P (j + 1) (body j t)"
      using Suc.prems(3) by simp
  qed
  then show ?case by (simp add: loop1_step lt)
qed

lemma loop4_rule:
  assumes "i \<le> stop" and "4 dvd (stop - i)" and "P i s"
    and "\<And>j t. i \<le> j \<Longrightarrow> j < stop \<Longrightarrow> 4 dvd (stop - j) \<Longrightarrow> P j t \<Longrightarrow> P (j + 4) (body j t)"
  shows "P stop (loop4 i stop body s)"
  using assms
proof (induction "stop - i" arbitrary: i s rule: less_induct)
  case less
  show ?case
  proof (cases "i < stop")
    case False
    with less.prems show ?thesis by (simp add: loop4_done)
  next
    case True
    from less.prems(2) obtain k where k: "stop - i = 4 * k"
      by (auto simp: dvd_def)
    with True have "k \<noteq> 0" by auto
    with k have ge: "i + 4 \<le> stop" by simp
    from k have "stop - (i + 4) = 4 * (k - 1)" by simp
    then have d: "4 dvd (stop - (i + 4))" by simp
    have "P stop (loop4 (i + 4) stop body (body i s))"
    proof (rule less.hyps)
      show "stop - (i + 4) < stop - i" using True by simp
      show "i + 4 \<le> stop" by (rule ge)
      show "4 dvd (stop - (i + 4))" by (rule d)
      show "P (i + 4) (body i s)" using less.prems True by simp
      show "\<And>j t. i + 4 \<le> j \<Longrightarrow> j < stop \<Longrightarrow> 4 dvd (stop - j) \<Longrightarrow> P j t \<Longrightarrow> P (j + 4) (body j t)"
        using less.prems(4) by simp
    qed
    then show ?thesis by (simp add: loop4_step True)
  qed
qed

lemma and_not3_le: "and_not3 n \<le> n"
  by (simp add: and_not3_def)

lemma and_not3_dvd: "4 dvd and_not3 n"
  by (simp add: and_not3_def dvd_minus_mod)

lemma count_lt_and_not3: "n < and_not3 n + 4"
proof -
  have "n mod 4 < 4" by simp
  then show ?thesis unfolding and_not3_def by (simp add: less_diff_conv) 
qed

text \<open>
  On a 64-bit \<^verbatim>\<open>size_t\<close>, \<open>and_not3\<close> is the bitwise \<^verbatim>\<open>n & ~3\<close> of the source.
\<close>

lemma and_not3_push_drop: "and_not3 n = push_bit 2 (drop_bit 2 n)"
  by (simp add: and_not3_def push_bit_eq_mult drop_bit_eq_div minus_mod_eq_mult_div)

lemma and_not3_is_bitwise:
  "(word_of_nat n :: 64 word) AND NOT 3 = word_of_nat (and_not3 n)"
proof -
  have m: "(3 :: 64 word) = mask 2"
    by (simp add: mask_eq_exp_minus_1)
  have s: "Suc (Suc (k - 2)) = k" if "2 \<le> k" for k
    using that by simp
  show ?thesis
    unfolding and_not3_push_drop m
    by (rule bit_word_eqI) (auto simp: bit_simps not_less s)
qed

lemma and_not3_size_t:
  assumes "n < 2 ^ 64"
  shows "unat ((word_of_nat n :: 64 word) AND NOT 3) = and_not3 n"
proof -
  from assms and_not3_le [of n] have "and_not3 n < 2 ^ 64" by simp
  then show ?thesis unfolding and_not3_is_bitwise by (simp add: unat_of_nat)
qed

lemma lane4_cases: "k < 4 \<Longrightarrow> k = 0 \<or> k = 1 \<or> k = 2 \<or> k = (3::nat)"
  by arith

section \<open>The checked kernels compute what the kernels compute\<close>

text \<open>
  The two embeddings of a kernel are one program.  On buffers that have the \<open>count\<close>
  elements the caller promises, the kernel with checked accesses ends without a fault,
  and its result is the result of the kernel on functions from indices to values that
  the buffers hold; an output buffer keeps its extent.
\<close>

lemma holds_nth: "holds p f \<longleftrightarrow> (\<forall>i<length p. p ! i = f i)"
proof
  assume "holds p f"
  then have p: "p = map f [0..<length p]" by (simp add: holds_def)
  show "\<forall>i<length p. p ! i = f i"
  proof (intro allI impI)
    fix i assume i: "i < length p"
    then have "map f [0..<length p] ! i = f i" by simp
    with p show "p ! i = f i" by simp
  qed
next
  assume "\<forall>i<length p. p ! i = f i"
  then have "p = map f [0..<length p]" by (intro nth_equalityI) simp_all
  then show "holds p f" by (simp add: holds_def)
qed

lemma holds_buffer: "holds xs (buffer xs)"
  by (simp add: holds_nth buffer_def)

lemma loop1_checked_done: "\<not> i < stop \<Longrightarrow> loop1_checked i stop body s = Some s"
  by (simp add: loop1_checked.simps)

lemma loop4_checked_done: "\<not> i < stop \<Longrightarrow> loop4_checked i stop body s = Some s"
  by (simp add: loop4_checked.simps)

lemma load_holds: "holds p f \<Longrightarrow> i < length p \<Longrightarrow> load p i = Some (f i)"
  by (simp add: holds_nth load_def)

lemma load4_holds: "holds p f \<Longrightarrow> i + 3 < length p \<Longrightarrow> load4 p i = Some (vld1q_f32 f i)"
  by (simp add: load4_def load_holds vld1q_f32_def)

lemma store_holds:
  assumes "holds p f" and "i < length p"
  shows "store p i v = Some (p[i := v])" and "holds (p[i := v]) (f(i := v))"
  using assms by (auto simp: holds_nth store_def nth_list_update)

lemma store4_holds:
  assumes "holds p f" and "i + 3 < length p"
  shows "\<exists>p'. store4 p i v = Some p' \<and> length p' = length p \<and> holds p' (vst1q_f32 f i v)"
proof -
  obtain a b c d where v: "v = V4 a b c d" by (cases v)
  from assms show ?thesis
    by (auto simp: v store_def holds_nth nth_list_update)
qed

text \<open>A checked loop whose body succeeds, in step with the unchecked loop.\<close>

lemma loop1_checked_rel:
  assumes "i \<le> stop" and "R c s"
    and "\<And>j c s. i \<le> j \<Longrightarrow> j < stop \<Longrightarrow> R c s \<Longrightarrow> \<exists>c'. bodyc j c = Some c' \<and> R c' (body j s)"
  shows "\<exists>c'. loop1_checked i stop bodyc c = Some c' \<and> R c' (loop1 i stop body s)"
  using assms
proof (induction "stop - i" arbitrary: i c s)
  case 0
  then show ?case by (simp add: loop1_done loop1_checked_done)
next
  case (Suc n)
  then have lt: "i < stop" by simp
  from Suc.prems(3) [OF le_refl lt Suc.prems(2)]
  obtain c' where c': "bodyc i c = Some c'" "R c' (body i s)" by blast
  have "\<exists>c''. loop1_checked (i + 1) stop bodyc c' = Some c'' \<and>
              R c'' (loop1 (i + 1) stop body (body i s))"
  proof (rule Suc.hyps(1))
    show "n = stop - (i + 1)" using Suc.hyps(2) by simp
    show "i + 1 \<le> stop" using lt by simp
    show "R c' (body i s)" by (rule c')
    show "\<And>j c s. i + 1 \<le> j \<Longrightarrow> j < stop \<Longrightarrow> R c s \<Longrightarrow>
            \<exists>c'. bodyc j c = Some c' \<and> R c' (body j s)"
      using Suc.prems(3) by simp
  qed
  with lt c' show ?case
    by (subst loop1_checked.simps) (simp add: loop1_step)
qed

lemma loop4_checked_rel:
  assumes "i \<le> stop" and "4 dvd (stop - i)" and "R c s"
    and "\<And>j c s. i \<le> j \<Longrightarrow> j + 4 \<le> stop \<Longrightarrow> R c s \<Longrightarrow>
           \<exists>c'. bodyc j c = Some c' \<and> R c' (body j s)"
  shows "\<exists>c'. loop4_checked i stop bodyc c = Some c' \<and> R c' (loop4 i stop body s)"
  using assms
proof (induction "stop - i" arbitrary: i c s rule: less_induct)
  case less
  show ?case
  proof (cases "i < stop")
    case False
    with less.prems show ?thesis by (simp add: loop4_done loop4_checked_done)
  next
    case True
    from less.prems(2) obtain k where k: "stop - i = 4 * k"
      by (auto simp: dvd_def)
    with True have "k \<noteq> 0" by auto
    with k have ge: "i + 4 \<le> stop" by simp
    from k have "stop - (i + 4) = 4 * (k - 1)" by simp
    then have d: "4 dvd (stop - (i + 4))" by simp
    from less.prems(4) [OF le_refl ge less.prems(3)]
    obtain c' where c': "bodyc i c = Some c'" "R c' (body i s)" by blast
    have "\<exists>c''. loop4_checked (i + 4) stop bodyc c' = Some c'' \<and>
                R c'' (loop4 (i + 4) stop body (body i s))"
    proof (rule less.hyps)
      show "stop - (i + 4) < stop - i" using True by simp
      show "i + 4 \<le> stop" by (rule ge)
      show "4 dvd (stop - (i + 4))" by (rule d)
      show "R c' (body i s)" by (rule c')
      show "\<And>j c s. i + 4 \<le> j \<Longrightarrow> j + 4 \<le> stop \<Longrightarrow> R c s \<Longrightarrow>
              \<exists>c'. bodyc j c = Some c' \<and> R c' (body j s)"
        using less.prems(4) by simp
    qed
    with True c' show ?thesis
      by (subst loop4_checked.simps) (simp add: loop4_step)
  qed
qed

lemma loop1_checked_eq:
  assumes "i \<le> stop"
    and "\<And>j s. i \<le> j \<Longrightarrow> j < stop \<Longrightarrow> bodyc j s = Some (body j s)"
  shows "loop1_checked i stop bodyc s = Some (loop1 i stop body s)"
proof -
  have "\<exists>c'. loop1_checked i stop bodyc s = Some c' \<and> c' = loop1 i stop body s"
    by (rule loop1_checked_rel [where R = "(=)"]) (use assms in auto)
  then show ?thesis by simp
qed

lemma loop4_checked_eq:
  assumes "i \<le> stop" and "4 dvd (stop - i)"
    and "\<And>j s. i \<le> j \<Longrightarrow> j + 4 \<le> stop \<Longrightarrow> bodyc j s = Some (body j s)"
  shows "loop4_checked i stop bodyc s = Some (loop4 i stop body s)"
proof -
  have "\<exists>c'. loop4_checked i stop bodyc s = Some c' \<and> c' = loop4 i stop body s"
    by (rule loop4_checked_rel [where R = "(=)"]) (use assms in auto)
  then show ?thesis by simp
qed

subsection \<open>The reductions\<close>

lemma weighted_average_checked_agrees:
  assumes "holds values v" and "holds weights w"
    and "count \<le> length values" and "count \<le> length weights"
  shows "weighted_average_checked values weights count = Some (weighted_average v w count)"
proof -
  let ?S = "and_not3 count"
  have S: "?S \<le> count" by (rule and_not3_le)
  have lanes: "loop4_checked 0 ?S
           (\<lambda>i (sum_weighted, sum_weights).
              do {
                vals \<leftarrow> load4 values i;
                wts \<leftarrow> load4 weights i;
                Some (vfmaq_f32 sum_weighted vals wts, vaddq_f32 sum_weights wts)
              }) s =
        Some (loop4 0 ?S
           (\<lambda>i (sum_weighted, sum_weights).
              let vals = vld1q_f32 v i;
                  wts = vld1q_f32 w i
              in (vfmaq_f32 sum_weighted vals wts, vaddq_f32 sum_weights wts)) s)" for s
  proof (rule loop4_checked_eq)
    show "0 \<le> ?S" by simp
    show "4 dvd (?S - 0)" by (simp add: and_not3_dvd)
  next
    fix j and s :: "float32x4_t \<times> float32x4_t"
    assume "j + 4 \<le> ?S"
    with S assms have "load4 values j = Some (vld1q_f32 v j)" "load4 weights j = Some (vld1q_f32 w j)"
      by (simp_all add: load4_holds)
    then show "(case s of (sum_weighted, sum_weights) \<Rightarrow>
                do {
                  vals \<leftarrow> load4 values j;
                  wts \<leftarrow> load4 weights j;
                  Some (vfmaq_f32 sum_weighted vals wts, vaddq_f32 sum_weights wts)
                }) =
          Some (case s of (sum_weighted, sum_weights) \<Rightarrow>
                let vals = vld1q_f32 v j;
                    wts = vld1q_f32 w j
                in (vfmaq_f32 sum_weighted vals wts, vaddq_f32 sum_weights wts))"
      by (cases s) (simp add: Let_def)
  qed
  have tail: "loop1_checked ?S count
           (\<lambda>i (weighted_sum, weight_sum).
              do {
                x \<leftarrow> load values i;
                y \<leftarrow> load weights i;
                Some (fadd weighted_sum (fmul x y), fadd weight_sum y)
              }) s =
        Some (loop1 ?S count
           (\<lambda>i (weighted_sum, weight_sum).
              (fadd weighted_sum (fmul (v i) (w i)), fadd weight_sum (w i))) s)" for s
  proof (rule loop1_checked_eq)
    show "?S \<le> count" by (rule S)
  next
    fix j and s :: "f32 \<times> f32"
    assume "j < count"
    with assms have "load values j = Some (v j)" "load weights j = Some (w j)"
      by (simp_all add: load_holds)
    then show "(case s of (a, b) \<Rightarrow>
                do {
                  x \<leftarrow> load values j;
                  y \<leftarrow> load weights j;
                  Some (fadd a (fmul x y), fadd b y)
                }) =
          Some (case s of (a, b) \<Rightarrow> (fadd a (fmul (v j) (w j)), fadd b (w j)))"
      by (cases s) simp
  qed
  show ?thesis
    by (simp add: weighted_average_checked_def weighted_average_def weighted_sums_def Let_def
        lanes tail split: prod.split)
qed

lemma cross_correlation_checked_agrees:
  assumes "holds signal1 f" and "holds signal2 g"
    and "len \<le> length signal1" and "len \<le> length signal2"
  shows "cross_correlation_checked signal1 signal2 len = Some (cross_correlation f g len)"
proof -
  let ?S = "and_not3 len"
  have S: "?S \<le> len" by (rule and_not3_le)
  have lanes: "loop4_checked 0 ?S
           (\<lambda>i sum4.
              do {
                s1 \<leftarrow> load4 signal1 i;
                s2 \<leftarrow> load4 signal2 i;
                Some (vfmaq_f32 sum4 s1 s2)
              }) s =
        Some (loop4 0 ?S (\<lambda>i sum4. vfmaq_f32 sum4 (vld1q_f32 f i) (vld1q_f32 g i)) s)" for s
  proof (rule loop4_checked_eq)
    show "0 \<le> ?S" by simp
    show "4 dvd (?S - 0)" by (simp add: and_not3_dvd)
  next
    fix j and s :: float32x4_t
    assume "j + 4 \<le> ?S"
    with S assms have "load4 signal1 j = Some (vld1q_f32 f j)" "load4 signal2 j = Some (vld1q_f32 g j)"
      by (simp_all add: load4_holds)
    then show "do {
                  s1 \<leftarrow> load4 signal1 j;
                  s2 \<leftarrow> load4 signal2 j;
                  Some (vfmaq_f32 s s1 s2)
                } = Some (vfmaq_f32 s (vld1q_f32 f j) (vld1q_f32 g j))"
      by simp
  qed
  have tail: "loop1_checked ?S len
           (\<lambda>i result.
              do {
                a \<leftarrow> load signal1 i;
                b \<leftarrow> load signal2 i;
                Some (fadd result (fmul a b))
              }) s =
        Some (loop1 ?S len (\<lambda>i result. fadd result (fmul (f i) (g i))) s)" for s
  proof (rule loop1_checked_eq)
    show "?S \<le> len" by (rule S)
  next
    fix j and s :: f32
    assume "j < len"
    with assms have "load signal1 j = Some (f j)" "load signal2 j = Some (g j)"
      by (simp_all add: load_holds)
    then show "do {
                  a \<leftarrow> load signal1 j;
                  b \<leftarrow> load signal2 j;
                  Some (fadd s (fmul a b))
                } = Some (fadd s (fmul (f j) (g j)))"
      by simp
  qed
  show ?thesis
    by (simp add: cross_correlation_checked_def cross_correlation_def Let_def lanes tail)
qed

lemma min_index_checked_agrees:
  assumes "holds array f" and "count \<le> length array"
  shows "min_index_checked array count = Some (min_index f count)"
proof (cases "count = 0")
  case True
  then show ?thesis by (simp add: min_index_checked_def min_index_def)
next
  case False
  let ?S = "and_not3 count"
  have S: "?S \<le> count" by (rule and_not3_le)
  from False assms have l0: "load array 0 = Some (f 0)" by (intro load_holds) auto
  have lanes: "loop4_checked 4 ?S (min_index_step_checked array) s =
        Some (loop4 4 ?S (min_index_step f) s)" if "4 \<le> ?S" for s
  proof (rule loop4_checked_eq)
    show "4 \<le> ?S" by (rule that)
    show "4 dvd (?S - 4)" using that by (simp add: dvd_diff_nat and_not3_dvd)
  next
    fix j and s :: "float32x4_t \<times> uint32x4_t"
    assume "j + 4 \<le> ?S"
    with S assms have "load4 array j = Some (vld1q_f32 f j)"
      by (simp add: load4_holds)
    then show "min_index_step_checked array j s = Some (min_index_step f j s)"
      by (cases s) (simp add: min_index_step_checked_def min_index_step_def Let_def)
  qed
  have l4: "load4 array 0 = Some (vld1q_f32 f 0)" if "4 \<le> ?S"
    using that S assms by (simp add: load4_holds)
  have tail: "loop1_checked ?S count
              (\<lambda>i (min_val, min_idx).
                 do {
                   x \<leftarrow> load array i;
                   Some (if flt x min_val then (x, i) else (min_val, min_idx))
                 }) s =
        Some (loop1 ?S count
                (\<lambda>i (min_val, min_idx).
                   if flt (f i) min_val then (f i, i) else (min_val, min_idx)) s)" for s
  proof (rule loop1_checked_eq)
    show "?S \<le> count" by (rule S)
  next
    fix j and s :: "f32 \<times> nat"
    assume "j < count"
    with assms have "load array j = Some (f j)" by (simp add: load_holds)
    then show "(case s of (min_val, min_idx) \<Rightarrow>
                 do {
                   x \<leftarrow> load array j;
                   Some (if flt x min_val then (x, j) else (min_val, min_idx))
                 }) =
          Some (case s of (min_val, min_idx) \<Rightarrow>
                   if flt (f j) min_val then (f j, j) else (min_val, min_idx))"
      by (cases s) simp
  qed
  from False show ?thesis
    by (simp add: min_index_checked_def min_index_def min_index_lanes_def Let_def l0 l4 lanes tail
        split: prod.split)
qed

subsection \<open>The kernels that write an output buffer\<close>

lemma speed_checked_agrees:
  assumes "holds positions_prev fp" and "holds positions_curr fc" and "holds speeds g"
    and "count \<le> length positions_prev" and "count \<le> length positions_curr"
    and "count \<le> length speeds"
  shows "\<exists>out. speed_checked positions_prev positions_curr speeds count time_delta = Some out \<and>
           length out = length speeds \<and> holds out (speed fp fc g count time_delta)"
proof -
  let ?S = "and_not3 count"
  define R where "R = (\<lambda>(c :: f32 list) s. length c = length speeds \<and> holds c s)"
  let ?tv = "vdupq_n_f32 (fdiv (Fin 1) time_delta)"
  have S: "?S \<le> count" by (rule and_not3_le)
  have R0: "R speeds g" using assms by (simp add: R_def)
  have "\<exists>c'. loop4_checked 0 ?S
           (\<lambda>i speeds.
              do {
                prev \<leftarrow> load4 positions_prev i;
                curr \<leftarrow> load4 positions_curr i;
                store4 speeds i (vmulq_f32 (vsubq_f32 curr prev) ?tv)
              }) speeds = Some c' \<and>
        R c' (loop4 0 ?S
                (\<lambda>i speeds. vst1q_f32 speeds i
                   (vmulq_f32 (vsubq_f32 (vld1q_f32 fc i) (vld1q_f32 fp i)) ?tv)) g)"
  proof (rule loop4_checked_rel [where R = R])
    show "0 \<le> ?S" by simp
    show "4 dvd (?S - 0)" by (simp add: and_not3_dvd)
    show "R speeds g" by (rule R0)
  next
    fix j c s
    assume j: "j + 4 \<le> ?S" and r: "R c s"
    with S assms have l: "load4 positions_prev j = Some (vld1q_f32 fp j)"
      "load4 positions_curr j = Some (vld1q_f32 fc j)"
      by (simp_all add: load4_holds)
    from r j S assms have "holds c s" "j + 3 < length c" by (simp_all add: R_def)
    from store4_holds [OF this]
    show "\<exists>c'. do {
                  prev \<leftarrow> load4 positions_prev j;
                  curr \<leftarrow> load4 positions_curr j;
                  store4 c j (vmulq_f32 (vsubq_f32 curr prev) ?tv)
                } = Some c' \<and>
            R c' (vst1q_f32 s j (vmulq_f32 (vsubq_f32 (vld1q_f32 fc j) (vld1q_f32 fp j)) ?tv))"
      using r by (simp add: l R_def)
  qed
  then obtain c1 where lanes: "loop4_checked 0 ?S
           (\<lambda>i speeds.
              do {
                prev \<leftarrow> load4 positions_prev i;
                curr \<leftarrow> load4 positions_curr i;
                store4 speeds i (vmulq_f32 (vsubq_f32 curr prev) ?tv)
              }) speeds = Some c1"
    and R1: "R c1 (loop4 0 ?S
                (\<lambda>i speeds. vst1q_f32 speeds i
                   (vmulq_f32 (vsubq_f32 (vld1q_f32 fc i) (vld1q_f32 fp i)) ?tv)) g)"
    by blast
  have "\<exists>c'. loop1_checked ?S count
         (\<lambda>i speeds.
            do {
              c \<leftarrow> load positions_curr i;
              p \<leftarrow> load positions_prev i;
              store speeds i (fdiv (fsub c p) time_delta)
            }) c1 = Some c' \<and>
        R c' (loop1 ?S count
           (\<lambda>i speeds. speeds(i := fdiv (fsub (fc i) (fp i)) time_delta))
           (loop4 0 ?S
                (\<lambda>i speeds. vst1q_f32 speeds i
                   (vmulq_f32 (vsubq_f32 (vld1q_f32 fc i) (vld1q_f32 fp i)) ?tv)) g))"
  proof (rule loop1_checked_rel [where R = R])
    show "?S \<le> count" by (rule S)
    show "R c1 (loop4 0 ?S
                (\<lambda>i speeds. vst1q_f32 speeds i
                   (vmulq_f32 (vsubq_f32 (vld1q_f32 fc i) (vld1q_f32 fp i)) ?tv)) g)"
      by (rule R1)
  next
    fix j c s
    assume j: "j < count" and r: "R c s"
    with assms have l: "load positions_prev j = Some (fp j)" "load positions_curr j = Some (fc j)"
      by (simp_all add: load_holds)
    from r j assms have "holds c s" "j < length c" by (simp_all add: R_def)
    from store_holds [OF this]
    show "\<exists>c'. do {
                  cu \<leftarrow> load positions_curr j;
                  p \<leftarrow> load positions_prev j;
                  store c j (fdiv (fsub cu p) time_delta)
                } = Some c' \<and>
            R c' (s(j := fdiv (fsub (fc j) (fp j)) time_delta))"
      using r by (simp add: l R_def)
  qed
  then show ?thesis
    unfolding speed_checked_def speed_def Let_def lanes
    by (simp add: R_def)
qed

lemma exp_moving_average_checked_agrees:
  assumes "holds input f" and "holds output g"
    and "count \<le> length input" and "count \<le> length output"
  shows "\<exists>out. exp_moving_average_checked input output count alpha = Some out \<and>
           length out = length output \<and> holds out (exp_moving_average f g count alpha)"
proof (cases "count = 0")
  case True
  with assms show ?thesis
    by (simp add: exp_moving_average_checked_def exp_moving_average_def)
next
  case False
  define R where "R = (\<lambda>(c :: f32 list) s. length c = length output \<and> holds c s)"
  from False assms have l0: "load input 0 = Some (f 0)" by (intro load_holds) auto
  from False assms have "holds output g" "0 < length output" by auto
  from store_holds [OF this, of "f 0"]
  have s0: "store output 0 (f 0) = Some (output[0 := f 0])"
    and R0: "R (output[0 := f 0]) (g(0 := f 0))"
    by (simp_all add: R_def)
  have "\<exists>c'. loop1_checked 1 count
            (\<lambda>i output.
               do {
                 x \<leftarrow> load input i;
                 prev \<leftarrow> load output (i - 1);
                 store output i (fadd (fmul alpha x) (fmul (fsub (Fin 1) alpha) prev))
               }) (output[0 := f 0]) = Some c' \<and>
        R c' (loop1 1 count
             (\<lambda>i output.
                output(i := fadd (fmul alpha (f i))
                                 (fmul (fsub (Fin 1) alpha) (output (i - 1)))))
             (g(0 := f 0)))"
  proof (rule loop1_checked_rel [where R = R])
    show "1 \<le> count" using False by simp
    show "R (output[0 := f 0]) (g(0 := f 0))" by (rule R0)
  next
    fix j c s
    assume j: "j < count" and r: "R c s"
    with assms have l: "load input j = Some (f j)" by (simp add: load_holds)
    from r j assms have h: "holds c s" "j < length c" by (simp_all add: R_def)
    then have p: "load c (j - 1) = Some (s (j - 1))" by (intro load_holds) auto
    from store_holds [OF h]
    show "\<exists>c'. do {
                 x \<leftarrow> load input j;
                 prev \<leftarrow> load c (j - 1);
                 store c j (fadd (fmul alpha x) (fmul (fsub (Fin 1) alpha) prev))
               } = Some c' \<and>
            R c' (s(j := fadd (fmul alpha (f j)) (fmul (fsub (Fin 1) alpha) (s (j - 1)))))"
      using r p by (simp add: l R_def)
  qed
  with False show ?thesis
    by (simp add: exp_moving_average_checked_def exp_moving_average_def Let_def l0 s0 R_def)
qed

lemma threshold_detection_checked_agrees:
  assumes "holds sensor_data f" and "holds detections g"
    and "count \<le> length sensor_data" and "count \<le> length detections"
  shows "\<exists>out. threshold_detection_checked sensor_data detections count threshold = Some out \<and>
           length out = length detections \<and>
           holds out (threshold_detection f g count threshold)"
proof -
  let ?S = "and_not3 count"
  define R where "R = (\<lambda>(c :: 8 word list) s. length c = length detections \<and> holds c s)"
  let ?m = "\<lambda>data :: float32x4_t.
     vmovn_u16 (vcombine_u16 (vmovn_u32 (vcgtq_f32 data (vdupq_n_f32 threshold))) (vdup_n_u16 0))"
  have S: "?S \<le> count" by (rule and_not3_le)
  have R0: "R detections g" using assms by (simp add: R_def)
  have Rs: "\<exists>c'. store c j v = Some c' \<and> R c' (s(j := v))" if "R c s" "j < count" for c s j v
  proof -
    from that assms have "holds c s" "j < length c" by (simp_all add: R_def)
    from store_holds [OF this, of v] that show ?thesis by (simp add: R_def)
  qed
  have "\<exists>c'. loop4_checked 0 ?S
           (\<lambda>i detections.
              do {
                data \<leftarrow> load4 sensor_data i;
                detections \<leftarrow> store detections i (if vget_lane_u8 (?m data) 0 \<noteq> 0 then 1 else 0);
                detections \<leftarrow> store detections (i + 1) (if vget_lane_u8 (?m data) 1 \<noteq> 0 then 1 else 0);
                detections \<leftarrow> store detections (i + 2) (if vget_lane_u8 (?m data) 2 \<noteq> 0 then 1 else 0);
                store detections (i + 3) (if vget_lane_u8 (?m data) 3 \<noteq> 0 then 1 else 0)
              }) detections = Some c' \<and>
        R c' (loop4 0 ?S
              (\<lambda>i detections. detections
                      (i := (if vget_lane_u8 (?m (vld1q_f32 f i)) 0 \<noteq> 0 then 1 else 0),
                       i + 1 := (if vget_lane_u8 (?m (vld1q_f32 f i)) 1 \<noteq> 0 then 1 else 0),
                       i + 2 := (if vget_lane_u8 (?m (vld1q_f32 f i)) 2 \<noteq> 0 then 1 else 0),
                       i + 3 := (if vget_lane_u8 (?m (vld1q_f32 f i)) 3 \<noteq> 0 then 1 else 0))) g)"
    (is "\<exists>c'. ?L = Some c' \<and> R c' ?P")
  proof (rule loop4_checked_rel [where R = R])
    show "0 \<le> ?S" by simp
    show "4 dvd (?S - 0)" by (simp add: and_not3_dvd)
    show "R detections g" by (rule R0)
  next
    fix j c s
    assume j: "j + 4 \<le> ?S" and r: "R c s"
    with S assms have l: "load4 sensor_data j = Some (vld1q_f32 f j)"
      by (simp add: load4_holds)
    let ?d = "?m (vld1q_f32 f j)"
    let ?b = "\<lambda>k. (if vget_lane_u8 ?d k \<noteq> 0 then 1 else 0) :: 8 word"
    from j S have k: "j < count" "j + 1 < count" "j + 2 < count" "j + 3 < count" by simp_all
    from Rs [OF r k(1)] obtain c1 where 1: "store c j (?b 0) = Some c1" "R c1 (s(j := ?b 0))"
      by blast
    from Rs [OF 1(2) k(2)] obtain c2 where 2: "store c1 (j + 1) (?b 1) = Some c2"
      "R c2 (s(j := ?b 0, j + 1 := ?b 1))" by blast
    from Rs [OF 2(2) k(3)] obtain c3 where 3: "store c2 (j + 2) (?b 2) = Some c3"
      "R c3 (s(j := ?b 0, j + 1 := ?b 1, j + 2 := ?b 2))" by blast
    from Rs [OF 3(2) k(4)] obtain c4 where 4: "store c3 (j + 3) (?b 3) = Some c4"
      "R c4 (s(j := ?b 0, j + 1 := ?b 1, j + 2 := ?b 2, j + 3 := ?b 3))" by blast
    show "\<exists>c'. do {
                data \<leftarrow> load4 sensor_data j;
                detections \<leftarrow> store c j (if vget_lane_u8 (?m data) 0 \<noteq> 0 then 1 else 0);
                detections \<leftarrow> store detections (j + 1) (if vget_lane_u8 (?m data) 1 \<noteq> 0 then 1 else 0);
                detections \<leftarrow> store detections (j + 2) (if vget_lane_u8 (?m data) 2 \<noteq> 0 then 1 else 0);
                store detections (j + 3) (if vget_lane_u8 (?m data) 3 \<noteq> 0 then 1 else 0)
              } = Some c' \<and>
            R c' (s(j := (if vget_lane_u8 (?m (vld1q_f32 f j)) 0 \<noteq> 0 then 1 else 0),
                       j + 1 := (if vget_lane_u8 (?m (vld1q_f32 f j)) 1 \<noteq> 0 then 1 else 0),
                       j + 2 := (if vget_lane_u8 (?m (vld1q_f32 f j)) 2 \<noteq> 0 then 1 else 0),
                       j + 3 := (if vget_lane_u8 (?m (vld1q_f32 f j)) 3 \<noteq> 0 then 1 else 0)))"
      using 4(2) by (simp only: l 1(1) 2(1) 3(1) 4(1) bind.bind_lunit) simp
  qed
  then obtain c1 where lanes: "?L = Some c1" and R1: "R c1 ?P" by blast
  have "\<exists>c'. loop1_checked ?S count
         (\<lambda>i detections.
            do {
              x \<leftarrow> load sensor_data i;
              store detections i (if fgt x threshold then 1 else 0)
            }) c1 = Some c' \<and>
        R c' (loop1 ?S count
           (\<lambda>i detections. detections(i := (if fgt (f i) threshold then 1 else 0))) ?P)"
  proof (rule loop1_checked_rel [where R = R])
    show "?S \<le> count" by (rule S)
    show "R c1 ?P" by (rule R1)
  next
    fix j c s
    assume j: "j < count" and r: "R c s"
    with assms have l: "load sensor_data j = Some (f j)" by (simp add: load_holds)
    from Rs [OF r j]
    show "\<exists>c'. do {
              x \<leftarrow> load sensor_data j;
              store c j (if fgt x threshold then 1 else 0)
            } = Some c' \<and>
            R c' (s(j := (if fgt (f j) threshold then 1 else 0)))"
      by (simp add: l)
  qed
  then show ?thesis
    unfolding threshold_detection_checked_def threshold_detection_def Let_def lanes
    by (simp add: R_def)
qed

lemma cumulative_sum_group_checked_agrees:
  assumes "holds input f" and "holds c s" and "i + 3 < length input" and "i < length c"
  shows "cumulative_sum_group_checked input c i = Some (cumulative_sum_group f s i)"
proof -
  from assms have "load4 input i = Some (vld1q_f32 f i)" by (simp add: load4_holds)
  moreover from assms have "load c (i - 1) = Some (s (i - 1))" by (intro load_holds) auto
  ultimately show ?thesis
    by (simp add: cumulative_sum_group_checked_def cumulative_sum_group_def Let_def)
qed

lemma cumulative_sum_loop_checked_agrees:
  assumes "holds input f" and "count \<le> length input" and "count \<le> n"
    and "length c = n" and "holds c s"
  shows "\<exists>c'. cumulative_sum_loop_checked input count simd_count i c = Some c' \<and>
           length c' = n \<and> holds c' (cumulative_sum_loop f count simd_count i s)"
  using assms(4,5)
proof (induction "simd_count - i" arbitrary: i c s rule: less_induct)
  case less
  show ?case
  proof (cases "i < simd_count")
    case False
    with less.prems show ?thesis
      by (subst cumulative_sum_loop_checked.simps, subst cumulative_sum_loop.simps) simp
  next
    case True
    show ?thesis
    proof (cases "4 \<le> count - i")
      case four: True
      with assms less.prems have g: "cumulative_sum_group_checked input c i =
          Some (cumulative_sum_group f s i)"
        by (intro cumulative_sum_group_checked_agrees) auto
      from four assms less.prems have "holds c s" "i + 3 < length c" by auto
      from store4_holds [OF this, of "cumulative_sum_group f s i"]
      obtain c1 where c1: "store4 c i (cumulative_sum_group f s i) = Some c1"
        "length c1 = n" "holds c1 (vst1q_f32 s i (cumulative_sum_group f s i))"
        using less.prems by auto
      have "\<exists>c'. cumulative_sum_loop_checked input count simd_count (i + 4) c1 = Some c' \<and>
              length c' = n \<and>
              holds c' (cumulative_sum_loop f count simd_count (i + 4)
                          (vst1q_f32 s i (cumulative_sum_group f s i)))"
        using True c1 by (intro less.hyps) auto
      with True four g c1 show ?thesis
        by (subst cumulative_sum_loop_checked.simps, subst cumulative_sum_loop.simps) simp
    next
      case short: False
      have "\<exists>c'. loop1_checked i count
                (\<lambda>j output.
                   do {
                     prev \<leftarrow> load output (j - 1);
                     x \<leftarrow> load input j;
                     store output j (fadd prev x)
                   }) c = Some c' \<and>
              (length c' = n \<and>
               holds c' (loop1 i count (\<lambda>j output. output(j := fadd (output (j - 1)) (f j))) s))"
      proof (cases "i \<le> count")
        case False
        with less.prems show ?thesis by (simp add: loop1_done loop1_checked_done)
      next
        case le: True
        show ?thesis
        proof (rule loop1_checked_rel [where R = "\<lambda>(c :: f32 list) s. length c = n \<and> holds c s"])
          show "i \<le> count" by (rule le)
          show "length c = n \<and> holds c s" using less.prems by simp
        next
          fix j and c :: "f32 list" and s
          assume j: "j < count" and r: "length c = n \<and> holds c s"
          with assms have l: "load input j = Some (f j)" by (simp add: load_holds)
          from r j assms have h: "holds c s" "j < length c" by simp_all
          then have p: "load c (j - 1) = Some (s (j - 1))" by (intro load_holds) auto
          from store_holds [OF h]
          show "\<exists>c'. do {
                       prev \<leftarrow> load c (j - 1);
                       x \<leftarrow> load input j;
                       store c j (fadd prev x)
                     } = Some c' \<and>
                  (length c' = n \<and> holds c' (s(j := fadd (s (j - 1)) (f j))))"
            using r p by (simp add: l)
        qed
      qed
      with True short show ?thesis
        by (subst cumulative_sum_loop_checked.simps, subst cumulative_sum_loop.simps) simp
    qed
  qed
qed

lemma cumulative_sum_checked_agrees:
  assumes "holds input f" and "holds output g"
    and "count \<le> length input" and "count \<le> length output"
  shows "\<exists>out. cumulative_sum_checked input output count = Some out \<and>
           length out = length output \<and> holds out (cumulative_sum f g count)"
proof (cases "count = 0")
  case True
  with assms show ?thesis
    by (simp add: cumulative_sum_checked_def cumulative_sum_def)
next
  case False
  from False assms have l0: "load input 0 = Some (f 0)" by (intro load_holds) auto
  from False assms have "holds output g" "0 < length output" by auto
  from store_holds [OF this, of "f 0"]
  have s0: "store output 0 (f 0) = Some (output[0 := f 0])"
    and h0: "holds (output[0 := f 0]) (g(0 := f 0))"
    by simp_all
  have "\<exists>c'. cumulative_sum_loop_checked input count (and_not3 (count - 1) + 1) 1
                (output[0 := f 0]) = Some c' \<and>
           length c' = length output \<and>
           holds c' (cumulative_sum_loop f count (and_not3 (count - 1) + 1) 1 (g(0 := f 0)))"
    using assms h0 by (intro cumulative_sum_loop_checked_agrees) simp_all
  with False show ?thesis
    by (simp add: cumulative_sum_checked_def cumulative_sum_def Let_def l0 s0)
qed

lemma moving_average_at_checked_agrees:
  assumes "holds input f" and "i < length input"
  shows "moving_average_at_checked input window_size i = Some (moving_average_at f window_size i)"
proof -
  let ?start = "if window_size \<le> i then i - window_size + 1 else 0"
  let ?E = "?start + and_not3 (i + 1 - ?start)"
  have E: "?E \<le> i + 1" using and_not3_le [of "i + 1 - ?start"] by auto
  have lanes: "loop4_checked ?start ?E
           (\<lambda>j sum4. do { data \<leftarrow> load4 input j; Some (vaddq_f32 sum4 data) }) s =
        Some (loop4 ?start ?E (\<lambda>j sum4. vaddq_f32 sum4 (vld1q_f32 f j)) s)" for s
  proof (rule loop4_checked_eq)
    show "?start \<le> ?E" by simp
    show "4 dvd (?E - ?start)" by (simp add: and_not3_dvd)
  next
    fix j and s :: float32x4_t
    assume "j + 4 \<le> ?E"
    with E assms have "load4 input j = Some (vld1q_f32 f j)"
      by (intro load4_holds) auto
    then show "do { data \<leftarrow> load4 input j; Some (vaddq_f32 s data) } =
        Some (vaddq_f32 s (vld1q_f32 f j))"
      by simp
  qed
  have tail: "loop1_checked ?E (i + 1)
           (\<lambda>j total. do { x \<leftarrow> load input j; Some (fadd total x) }) s =
        Some (loop1 ?E (i + 1) (\<lambda>j total. fadd total (f j)) s)" for s
  proof (rule loop1_checked_eq)
    show "?E \<le> i + 1" by (rule E)
  next
    fix j and s :: f32
    assume "j < i + 1"
    with assms have "load input j = Some (f j)" by (intro load_holds) auto
    then show "do { x \<leftarrow> load input j; Some (fadd s x) } = Some (fadd s (f j))"
      by simp
  qed
  show ?thesis
    unfolding moving_average_at_checked_def moving_average_at_def Let_def lanes tail
      bind.bind_lunit
    by (rule refl)
qed

lemma moving_average_filter_checked_agrees:
  assumes "holds input f" and "holds output g"
    and "count \<le> length input" and "count \<le> length output"
  shows "\<exists>out. moving_average_filter_checked input output count window_size = Some out \<and>
           length out = length output \<and>
           holds out (moving_average_filter f g count window_size)"
proof (cases "window_size = 0 \<or> count = 0")
  case True
  with assms show ?thesis
    by (auto simp: moving_average_filter_checked_def moving_average_filter_def)
next
  case False
  have "\<exists>c'. loop1_checked 0 count
            (\<lambda>i output.
               do {
                 m \<leftarrow> moving_average_at_checked input window_size i;
                 store output i m
               }) output = Some c' \<and>
          (length c' = length output \<and>
           holds c' (loop1 0 count
             (\<lambda>i output. output(i := moving_average_at f window_size i)) g))"
  proof (rule loop1_checked_rel
      [where R = "\<lambda>(c :: f32 list) s. length c = length output \<and> holds c s"])
    show "0 \<le> count" by simp
    show "length output = length output \<and> holds output g" using assms by simp
  next
    fix j and c :: "f32 list" and s
    assume j: "j < count" and r: "length c = length output \<and> holds c s"
    with assms have m: "moving_average_at_checked input window_size j =
        Some (moving_average_at f window_size j)"
      by (intro moving_average_at_checked_agrees) auto
    from r j assms have "holds c s" "j < length c" by simp_all
    from store_holds [OF this]
    show "\<exists>c'. do {
                 m \<leftarrow> moving_average_at_checked input window_size j;
                 store c j m
               } = Some c' \<and>
            (length c' = length output \<and> holds c' (s(j := moving_average_at f window_size j)))"
      using r by (simp add: m)
  qed
  with False show ?thesis
    by (simp add: moving_average_filter_checked_def moving_average_filter_def Let_def)
qed

section \<open>Empty input\<close>

text \<open>
  On the functions from indices to values: with \<open>count = 0\<close> every kernel returns its
  default, whatever the buffers hold, and hands back the output as it was.
\<close>

lemma empty_input_defaults:
  "weighted_average values weights 0 = Fin 0 \<and>
   cross_correlation signal1 signal2 0 = Fin 0 \<and>
   min_index array 0 = 0 \<and>
   cumulative_sum input output 0 = output \<and>
   speed positions_prev positions_curr speeds 0 time_delta = speeds \<and>
   moving_average_filter input output 0 window_size = output \<and>
   exp_moving_average input output 0 alpha = output \<and>
   threshold_detection sensor_data detections 0 threshold = detections"
  by (simp add: weighted_average_def weighted_sums_def cross_correlation_def min_index_def
      cumulative_sum_def speed_def moving_average_filter_def exp_moving_average_def
      threshold_detection_def and_not3_zero loop1_done loop4_done vdupq_n_f32_def
      vget_lane_f32_def round32_zero fgt_def)

text \<open>An empty buffer has no element: every load and every store on it is a fault.\<close>

lemma empty_buffer_faults: "load [] i = None" "store [] i v = None"
  by (simp_all add: load_def store_def)

text \<open>
  The check is not idle: asked for one element of buffers that have none, every kernel
  ends in a fault, at its first access.
\<close>

lemma read_of_nothing_faults:
  "weighted_average_checked [] [] 1 = None \<and>
   cross_correlation_checked [] [] 1 = None \<and>
   min_index_checked [] 1 = None \<and>
   cumulative_sum_checked [] [] 1 = None \<and>
   speed_checked [] [] [] 1 time_delta = None \<and>
   moving_average_filter_checked [] [] 1 1 = None \<and>
   exp_moving_average_checked [] [] 1 alpha = None \<and>
   threshold_detection_checked [] [] 1 threshold = None"
  by (simp add: weighted_average_checked_def cross_correlation_checked_def min_index_checked_def
      cumulative_sum_checked_def speed_checked_def moving_average_filter_checked_def
      moving_average_at_checked_def
      exp_moving_average_checked_def threshold_detection_checked_def and_not3_def
      loop1_checked.simps loop4_checked.simps empty_buffer_faults)

text \<open>
  C4.  With \<open>count = 0\<close> every kernel, run with checked accesses on buffers of any
  extent, the empty buffer included, ends without a fault and with its default: 0 for
  \<open>weighted_average\<close> and \<open>cross_correlation\<close>, the index 0 for \<open>min_index\<close>, and the
  output buffer exactly as it was for \<open>cumulative_sum\<close>, \<open>speed\<close>,
  \<open>moving_average_filter\<close>, \<open>exp_moving_average\<close> and \<open>threshold_detection\<close>.  On empty
  buffers any load or store would have been a fault, so no element of an input buffer is
  read and no element of an output buffer is written.  The kernels with checked
  accesses are the kernels of the other sections: the lemmas \<open>*_checked_agrees\<close>
  above give them the same results on buffers of \<open>count\<close> elements.
\<close>

theorem empty_input_touches_nothing:
  "weighted_average_checked values weights 0 = Some (Fin 0) \<and>
   cross_correlation_checked signal1 signal2 0 = Some (Fin 0) \<and>
   min_index_checked array 0 = Some 0 \<and>
   cumulative_sum_checked input output 0 = Some output \<and>
   speed_checked positions_prev positions_curr speeds 0 time_delta = Some speeds \<and>
   moving_average_filter_checked input output 0 window_size = Some output \<and>
   exp_moving_average_checked input output 0 alpha = Some output \<and>
   threshold_detection_checked sensor_data detections 0 threshold = Some detections"
  by (simp add: weighted_average_checked_def cross_correlation_checked_def min_index_checked_def
      cumulative_sum_checked_def speed_checked_def moving_average_filter_checked_def
      exp_moving_average_checked_def threshold_detection_checked_def and_not3_zero
      loop1_checked_done loop4_checked_done vdupq_n_f32_def vget_lane_f32_def fgt_def)

section \<open>Cumulative sum\<close>

text \<open>
  C1.  On the input \<open>1, 2, ..., 10\<close> of the demonstration driver the prefix sums are
  \<open>1, 3, 6, 10, 15, 21, 28, 36, 45, 55\<close>.  The kernel stores \<open>17\<close> at index 4: the third
  shift-and-add step of a group adds the group's first element once more to its last lane,
  and the error is carried into the next group.  It stores nothing at index 9: the loop
  bound \<open>((count - 1) & ~3) + 1\<close> ends the loop before the scalar branch can run, so the
  last \<open>(count - 1) mod 4\<close> elements keep what the output buffer held.
\<close>

theorem cumulative_sum_one_to_ten:
  "contents (cumulative_sum (buffer (map Fin [1, 2, 3, 4, 5, 6, 7, 8, 9, 10])) output 10) 10 =
     [Fin 1, Fin 3, Fin 6, Fin 10, Fin 17, Fin 23, Fin 30, Fin 38, Fin 53, output 9]"
  by code_simp

section \<open>Threshold detection\<close>

text \<open>The mask of a comparison, narrowed twice to a byte, is nonzero exactly when it held.\<close>

lemma narrowed_all_ones: "(ucast (ucast (- 1 :: 32 word) :: 16 word) :: 8 word) = 255"
  by code_simp

lemma narrowed_mask_nonzero:
  "((ucast (ucast (lane_mask b) :: 16 word) :: 8 word) \<noteq> 0) = b"
  by (cases b) (simp_all add: lane_mask_def narrowed_all_ones)

lemma threshold_lanes_body:
  "(let data = vld1q_f32 sensor_data i;
        cmp = vcgtq_f32 data (vdupq_n_f32 threshold);
        mask16 = vmovn_u32 cmp;
        mask8 = vmovn_u16 (vcombine_u16 mask16 (vdup_n_u16 0))
    in detections
         (i := (if vget_lane_u8 mask8 0 \<noteq> 0 then 1 else 0),
          i + 1 := (if vget_lane_u8 mask8 1 \<noteq> 0 then 1 else 0),
          i + 2 := (if vget_lane_u8 mask8 2 \<noteq> 0 then 1 else 0),
          i + 3 := (if vget_lane_u8 mask8 3 \<noteq> 0 then 1 else 0))) =
   detections
     (i := (if fgt (sensor_data i) threshold then 1 else 0),
      i + 1 := (if fgt (sensor_data (i + 1)) threshold then 1 else 0),
      i + 2 := (if fgt (sensor_data (i + 2)) threshold then 1 else 0),
      i + 3 := (if fgt (sensor_data (i + 3)) threshold then 1 else 0))"
  by (simp add: Let_def vld1q_f32_def vdupq_n_f32_def vdup_n_u16_def vget_lane_u8_def
      narrowed_mask_nonzero)


text \<open>
  C6.  For every index \<open>i < count\<close> the kernel stores 1 when \<open>sensor_data[i] > threshold\<close>
  holds strictly and 0 otherwise, so a sample equal to the threshold gives 0; the lane
  path (mask, two narrowings, lane test) and the scalar tail store the same flag.  Beyond
  \<open>count\<close> the output keeps what it held.
\<close>

theorem threshold_detection_strict:
  "threshold_detection sensor_data detections count threshold i =
     (if i < count then (if fgt (sensor_data i) threshold then 1 else 0) else detections i)"
proof -
  let ?f = "\<lambda>k. if fgt (sensor_data k) threshold then 1 else (0 :: 8 word)"
  let ?P = "\<lambda>j (d :: u8_buf). \<forall>k. d k = (if k < j then ?f k else detections k)"
  let ?S = "and_not3 count"
  let ?lanes = "loop4 0 ?S
      (\<lambda>i detections.
         let data = vld1q_f32 sensor_data i;
             cmp = vcgtq_f32 data (vdupq_n_f32 threshold);
             mask16 = vmovn_u32 cmp;
             mask8 = vmovn_u16 (vcombine_u16 mask16 (vdup_n_u16 0))
         in detections
              (i := (if vget_lane_u8 mask8 0 \<noteq> 0 then 1 else 0),
               i + 1 := (if vget_lane_u8 mask8 1 \<noteq> 0 then 1 else 0),
               i + 2 := (if vget_lane_u8 mask8 2 \<noteq> 0 then 1 else 0),
               i + 3 := (if vget_lane_u8 mask8 3 \<noteq> 0 then 1 else 0)))
      detections"
  have lanes: "?P ?S ?lanes"
  proof (rule loop4_rule [where P = ?P])
    show "0 \<le> ?S" by simp
    show "4 dvd (?S - 0)" by (simp add: and_not3_dvd)
    show "?P 0 detections" by simp
  next
    fix j and t :: u8_buf
    assume "?P j t"
    then show "?P (j + 4) (let data = vld1q_f32 sensor_data j;
             cmp = vcgtq_f32 data (vdupq_n_f32 threshold);
             mask16 = vmovn_u32 cmp;
             mask8 = vmovn_u16 (vcombine_u16 mask16 (vdup_n_u16 0))
         in t (j := (if vget_lane_u8 mask8 0 \<noteq> 0 then 1 else 0),
               j + 1 := (if vget_lane_u8 mask8 1 \<noteq> 0 then 1 else 0),
               j + 2 := (if vget_lane_u8 mask8 2 \<noteq> 0 then 1 else 0),
               j + 3 := (if vget_lane_u8 mask8 3 \<noteq> 0 then 1 else 0)))"
      unfolding threshold_lanes_body by (auto simp: fun_upd_def)
  qed
  have "?P count (loop1 ?S count (\<lambda>i detections. detections(i := ?f i)) ?lanes)"
  proof (rule loop1_rule [where P = ?P])
    show "?S \<le> count" by (rule and_not3_le)
    show "?P ?S ?lanes" by (rule lanes)
  next
    fix j and t :: u8_buf
    assume "?P j t"
    then show "?P (j + 1) (t(j := ?f j))" by (auto simp: less_Suc_eq)
  qed
  then show ?thesis
    by (simp add: threshold_detection_def Let_def)
qed

text \<open>
  Five samples, one lane group and a tail of one: index 1 holds 5, above the threshold 3,
  and index 4, in the tail, holds the threshold itself.
\<close>

theorem threshold_detection_strict_witness:
  "threshold_detection (buffer (map Fin [1, 5, 2, 6, 3])) (\<lambda>_. 0) 5 (Fin 3) 1 = 1 \<and>
   threshold_detection (buffer (map Fin [1, 5, 2, 6, 3])) (\<lambda>_. 0) 5 (Fin 3) 4 = 0"
  unfolding threshold_detection_strict by code_simp

section \<open>Exponential moving average\<close>

text \<open>
  C8.  With \<open>count = 0\<close> the kernel leaves the output as it was.  With \<open>count \<ge> 1\<close> it
  stores \<open>output[0] = input[0]\<close> and, for \<open>1 \<le> i < count\<close>,
  \<open>output[i] = alpha * input[i] + (1 - alpha) * output[i - 1]\<close>, each element from the
  one stored just before it; nothing is stored from \<open>count\<close> on.  No condition is put
  on \<open>alpha\<close>.
\<close>

theorem exp_moving_average_recurrence:
  "exp_moving_average input output 0 alpha = output \<and>
   (0 < count \<longrightarrow>
      exp_moving_average input output count alpha 0 = input 0 \<and>
      (\<forall>i. 1 \<le> i \<and> i < count \<longrightarrow>
         exp_moving_average input output count alpha i =
           fadd (fmul alpha (input i))
                (fmul (fsub (Fin 1) alpha) (exp_moving_average input output count alpha (i - 1)))) \<and>
      (\<forall>i. count \<le> i \<longrightarrow> exp_moving_average input output count alpha i = output i))"
proof -
  let ?F = "\<lambda>i (out :: f32_buf).
      fadd (fmul alpha (input i)) (fmul (fsub (Fin 1) alpha) (out (i - 1)))"
  let ?P = "\<lambda>j (out :: f32_buf). out 0 = input 0 \<and>
      (\<forall>i. 1 \<le> i \<and> i < j \<longrightarrow> ?F i out = out i) \<and> (\<forall>i. j \<le> i \<longrightarrow> out i = output i)"
  let ?run = "loop1 1 count (\<lambda>i out. out(i := ?F i out)) (output(0 := input 0))"
  have inv: "?P count ?run" if "0 < count"
  proof (rule loop1_rule [where P = ?P])
    show "1 \<le> count" using that by simp
    show "?P 1 (output(0 := input 0))" by simp
  next
    fix j and t :: f32_buf
    assume j: "1 \<le> j" and t: "?P j t"
    have "?F i (t(j := ?F j t)) = (t(j := ?F j t)) i" if "1 \<le> i \<and> i < j + 1" for i
    proof (cases "i = j")
      case True
      from j have "j - 1 \<noteq> j" by simp
      with True show ?thesis by simp
    next
      case False
      with that have "i < j" by simp
      with that t have "?F i t = t i" by blast
      moreover from \<open>i < j\<close> have "i \<noteq> j" "i - 1 \<noteq> j" by simp_all
      ultimately show ?thesis by simp
    qed
    moreover have "(t(j := ?F j t)) 0 = input 0" using j t by simp
    moreover have "\<forall>i. j + 1 \<le> i \<longrightarrow> (t(j := ?F j t)) i = output i" using t by simp
    ultimately show "?P (j + 1) (t(j := ?F j t))" by blast
  qed
  have run: "exp_moving_average input output count alpha = ?run" if "0 < count"
    using that by (simp add: exp_moving_average_def Let_def)
  have "?P count (exp_moving_average input output count alpha)" if "0 < count"
    using inv [OF that] unfolding run [OF that] .
  moreover have "exp_moving_average input output 0 alpha = output"
    by (simp add: exp_moving_average_def)
  ultimately show ?thesis by metis
qed

text \<open>Two samples 4 and 8 with \<open>alpha = 1/2\<close>: the output is 4, then 6.\<close>

theorem exp_moving_average_recurrence_witness:
  "(0::nat) < 2 \<and>
   exp_moving_average (buffer [Fin 4, Fin 8]) (buffer []) 2 (Fin (1 / 2)) 0 = Fin 4 \<and>
   exp_moving_average (buffer [Fin 4, Fin 8]) (buffer []) 2 (Fin (1 / 2)) 1 = Fin 6 \<and>
   exp_moving_average (buffer [Fin 4, Fin 8]) (buffer []) 2 (Fin (1 / 2)) 2 = buffer [] 2"
proof -
  let ?b = "buffer [Fin 4, Fin 8]"
  let ?e = "exp_moving_average ?b (buffer []) 2 (Fin (1 / 2))"
  have pos: "(0::nat) < 2" by simp
  note th = exp_moving_average_recurrence
    [of ?b "buffer []" "Fin (1 / 2)" 2, THEN conjunct2, THEN mp, OF pos]
  from th have 0: "?e 0 = ?b 0" by (rule conjunct1)
  note step = th [THEN conjunct2, THEN conjunct1, rule_format]
  have "?e 1 = fadd (fmul (Fin (1 / 2)) (?b 1)) (fmul (fsub (Fin 1) (Fin (1 / 2))) (?e (1 - 1)))"
    by (rule step) simp
  also have "\<dots> = Fin 6" unfolding diff_self_eq_0 0 by code_simp
  finally have 1: "?e 1 = Fin 6" .
  have 2: "?e 2 = buffer [] 2"
    by (rule th [THEN conjunct2, THEN conjunct2, rule_format]) simp
  have "?b 0 = Fin 4" by code_simp
  with 0 1 2 show ?thesis by simp
qed

section \<open>Speed\<close>

text \<open>
  What the kernel stores: the reciprocal \<open>1 / time_delta\<close> is computed once and multiplies
  the differences of the full groups of four, indices below \<open>count & ~3\<close>; the tail,
  indices from \<open>count & ~3\<close> up to \<open>count\<close>, divides each difference by \<open>time_delta\<close>.
\<close>

lemma speed_lanes_and_tail:
  "speed positions_prev positions_curr speeds count time_delta i =
     (if i < and_not3 count
      then fmul (fsub (positions_curr i) (positions_prev i)) (fdiv (Fin 1) time_delta)
      else if i < count
      then fdiv (fsub (positions_curr i) (positions_prev i)) time_delta
      else speeds i)"
proof -
  let ?m = "\<lambda>k. fmul (fsub (positions_curr k) (positions_prev k)) (fdiv (Fin 1) time_delta)"
  let ?d = "\<lambda>k. fdiv (fsub (positions_curr k) (positions_prev k)) time_delta"
  let ?S = "and_not3 count"
  let ?body = "\<lambda>i speeds.
                 let prev = vld1q_f32 positions_prev i;
                     curr = vld1q_f32 positions_curr i;
                     diff = vsubq_f32 curr prev;
                     speed4 = vmulq_f32 diff (vdupq_n_f32 (fdiv (Fin 1) time_delta))
                 in vst1q_f32 speeds i speed4"
  have body: "?body j t = t(j := ?m j, j + 1 := ?m (j + 1), j + 2 := ?m (j + 2), j + 3 := ?m (j + 3))"
    for j t
    by (simp add: Let_def vld1q_f32_def vdupq_n_f32_def)
  let ?P = "\<lambda>j (s :: f32_buf). \<forall>k. s k = (if k < j then ?m k else speeds k)"
  have lanes: "?P ?S (loop4 0 ?S ?body speeds)"
  proof (rule loop4_rule [where P = ?P])
    show "0 \<le> ?S" by simp
    show "4 dvd (?S - 0)" by (simp add: and_not3_dvd)
    show "?P 0 speeds" by simp
  next
    fix j and t :: f32_buf
    assume "?P j t"
    then show "?P (j + 4) (?body j t)"
      unfolding body by (auto simp: fun_upd_def)
  qed
  let ?Q = "\<lambda>j (s :: f32_buf).
      \<forall>k. s k = (if k < ?S then ?m k else if k < j then ?d k else speeds k)"
  have "?Q count (loop1 ?S count (\<lambda>i s. s(i := ?d i)) (loop4 0 ?S ?body speeds))"
  proof (rule loop1_rule [where P = ?Q])
    show "?S \<le> count" by (rule and_not3_le)
    show "?Q ?S (loop4 0 ?S ?body speeds)" using lanes by simp
  next
    fix j and t :: f32_buf
    assume "?S \<le> j" and "?Q j t"
    then show "?Q (j + 1) (t(j := ?d j))" by (auto simp: less_Suc_eq)
  qed
  then show ?thesis
    by (simp add: speed_def Let_def)
qed

text \<open>
  C3.  Every element is to be the difference times the reciprocal \<open>1 / time_delta\<close>, in
  the tail as in the lanes.  Five elements with the same difference 5 and the nonzero
  \<open>time_delta = 3\<close>: index 3, in the group of four, gets 5 times the rounded reciprocal
  of 3; index 4, the tail, gets the rounded quotient \<open>5 / 3\<close>, one unit in the last place
  below it.  The tail loop divides where the lane loop multiplies.
\<close>

theorem speed_tail_is_not_reciprocal:
  "speed (buffer (map Fin [0, 0, 0, 0, 0])) (buffer (map Fin [5, 5, 5, 5, 5])) (buffer []) 5 (Fin 3) 3
     = fmul (fsub (Fin 5) (Fin 0)) (fdiv (Fin 1) (Fin 3)) \<and>
   fmul (fsub (Fin 5) (Fin 0)) (fdiv (Fin 1) (Fin 3)) = Fin (13981014 / 8388608) \<and>
   speed (buffer (map Fin [0, 0, 0, 0, 0])) (buffer (map Fin [5, 5, 5, 5, 5])) (buffer []) 5 (Fin 3) 4
     = Fin (13981013 / 8388608) \<and>
   speed (buffer (map Fin [0, 0, 0, 0, 0])) (buffer (map Fin [5, 5, 5, 5, 5])) (buffer []) 5 (Fin 3) 4
     \<noteq> fmul (fsub (Fin 5) (Fin 0)) (fdiv (Fin 1) (Fin 3))"
  by code_simp

section \<open>Weighted average\<close>

lemma weighted_average_unfold:
  "weighted_average values weights count =
     (if fgt (weight_sum values weights count) (Fin 0)
      then fdiv (weighted_sum values weights count) (weight_sum values weights count)
      else Fin 0)"
  by (simp add: weighted_average_def weighted_sum_def weight_sum_def split: prod.split)

subsection \<open>The accumulators of the kernel are the sums from the inputs\<close>

lemma lane_positions_zero: "lane_positions 0 k = []"
  by (simp add: lane_positions_def)

lemma lane_positions_next:
  "4 dvd j \<Longrightarrow> lane_positions (j + 4) k = lane_positions j k @ [j + k]"
  by (auto simp: lane_positions_def dvd_def)

lemma lane4_vfmaq_f32:
  "lane4 (vfmaq_f32 x y z) k = ffma (lane4 x k) (lane4 y k) (lane4 z k)"
  by (cases x; cases y; cases z) simp

lemma lane4_vaddq_f32: "lane4 (vaddq_f32 x y) k = fadd (lane4 x k) (lane4 y k)"
  by (cases x; cases y) simp

lemma lane4_vld1q_f32: "k < 4 \<Longrightarrow> lane4 (vld1q_f32 p i) k = p (i + k)"
  by (drule lane4_cases) (auto simp: vld1q_f32_def)

lemma horizontal_sum_lanes:
  "vget_lane_f32 (vpadd_f32 (vadd_f32 (vget_low_f32 v) (vget_high_f32 v))
                            (vadd_f32 (vget_low_f32 v) (vget_high_f32 v))) 0 =
     spec_horizontal (lane4 v)"
  by (cases v) (simp add: vget_lane_f32_def spec_horizontal_def)

lemma spec_horizontal_cong:
  "(\<And>k. k < 4 \<Longrightarrow> l k = l' k) \<Longrightarrow> spec_horizontal l = spec_horizontal l'"
  by (simp add: spec_horizontal_def)

lemma weighted_sums_lanes:
  fixes "values" weights :: f32_buf
  assumes "k < 4"
  shows "lane4 (fst (loop4 0 (and_not3 count)
           (\<lambda>i (sum_weighted, sum_weights).
              let vals = vld1q_f32 values i;
                  wts = vld1q_f32 weights i
              in (vfmaq_f32 sum_weighted vals wts, vaddq_f32 sum_weights wts))
           (vdupq_n_f32 (Fin 0), vdupq_n_f32 (Fin 0)))) k =
         spec_lane_weighted values weights (and_not3 count) k"
    and "lane4 (snd (loop4 0 (and_not3 count)
           (\<lambda>i (sum_weighted, sum_weights).
              let vals = vld1q_f32 values i;
                  wts = vld1q_f32 weights i
              in (vfmaq_f32 sum_weighted vals wts, vaddq_f32 sum_weights wts))
           (vdupq_n_f32 (Fin 0), vdupq_n_f32 (Fin 0)))) k =
         spec_lane_weight weights (and_not3 count) k"
proof -
  let ?S = "and_not3 count"
  let ?lbody = "\<lambda>i (sum_weighted, sum_weights).
                 let vals = vld1q_f32 values i;
                     wts = vld1q_f32 weights i
                 in (vfmaq_f32 sum_weighted vals wts, vaddq_f32 sum_weights wts)"
  let ?P = "\<lambda>j (st :: float32x4_t \<times> float32x4_t).
      4 dvd j \<and> (\<forall>k<4. lane4 (fst st) k = spec_lane_weighted values weights j k \<and>
                          lane4 (snd st) k = spec_lane_weight weights j k)"
  have "?P ?S (loop4 0 ?S ?lbody (vdupq_n_f32 (Fin 0), vdupq_n_f32 (Fin 0)))"
  proof (rule loop4_rule [where P = ?P])
    show "0 \<le> ?S" by simp
    show "4 dvd (?S - 0)" by (simp add: and_not3_dvd)
    show "?P 0 (vdupq_n_f32 (Fin 0), vdupq_n_f32 (Fin 0))"
      by (auto simp: spec_lane_weighted_def spec_lane_weight_def lane_positions_zero
          vdupq_n_f32_def dest: lane4_cases)
  next
    fix j and t :: "float32x4_t \<times> float32x4_t"
    assume inv: "?P j t"
    obtain sw sws where t: "t = (sw, sws)" by (cases t)
    have b: "?lbody j t = (vfmaq_f32 sw (vld1q_f32 values j) (vld1q_f32 weights j),
                           vaddq_f32 sws (vld1q_f32 weights j))"
      by (simp add: t Let_def)
    from inv have dj: "4 dvd j" by simp
    have "lane4 (fst (?lbody j t)) k = spec_lane_weighted values weights (j + 4) k \<and>
          lane4 (snd (?lbody j t)) k = spec_lane_weight weights (j + 4) k" if "k < 4" for k
      using inv that unfolding b
      by (simp add: t lane4_vfmaq_f32 lane4_vaddq_f32 lane4_vld1q_f32 spec_lane_weighted_def
          spec_lane_weight_def lane_positions_next [OF dj])
    with dj show "?P (j + 4) (?lbody j t)" by simp
  qed
  with assms show
    "lane4 (fst (loop4 0 ?S ?lbody (vdupq_n_f32 (Fin 0), vdupq_n_f32 (Fin 0)))) k =
       spec_lane_weighted values weights ?S k"
    and "lane4 (snd (loop4 0 ?S ?lbody (vdupq_n_f32 (Fin 0), vdupq_n_f32 (Fin 0)))) k =
       spec_lane_weight weights ?S k"
    by simp_all
qed

lemma tail_loop_foldl:
  assumes "S \<le> count"
  shows "loop1 S count (\<lambda>i (x, y). (f x i, g y i)) (x0, y0) =
           (foldl f x0 [S..<count], foldl g y0 [S..<count])"
proof -
  let ?Q = "\<lambda>j st. st = (foldl f x0 [S..<j], foldl g y0 [S..<j])"
  show ?thesis
  proof (rule loop1_rule [where P = ?Q])
    show "S \<le> count" by (rule assms)
    show "?Q S (x0, y0)" by simp
  next
    fix j and t :: "'a \<times> 'b"
    assume "S \<le> j" and "?Q j t"
    then show "?Q (j + 1) (case t of (x, y) \<Rightarrow> (f x j, g y j))" by simp
  qed
qed

lemma weighted_sums_from_inputs:
  "weighted_sums values weights count =
     (spec_weighted_total values weights count, spec_weight_total weights count)"
proof -
  let ?S = "and_not3 count"
  let ?lanes = "loop4 0 ?S
           (\<lambda>i (sum_weighted, sum_weights).
              let vals = vld1q_f32 values i;
                  wts = vld1q_f32 weights i
              in (vfmaq_f32 sum_weighted vals wts, vaddq_f32 sum_weights wts))
           (vdupq_n_f32 (Fin 0), vdupq_n_f32 (Fin 0))"
  have h1: "spec_horizontal (lane4 (fst ?lanes)) =
            spec_horizontal (spec_lane_weighted values weights ?S)"
    by (rule spec_horizontal_cong) (rule weighted_sums_lanes)
  have h2: "spec_horizontal (lane4 (snd ?lanes)) = spec_horizontal (spec_lane_weight weights ?S)"
    by (rule spec_horizontal_cong) (rule weighted_sums_lanes)
  have "weighted_sums values weights count =
      loop1 ?S count
        (\<lambda>i (x, y). ((\<lambda>acc i. fadd acc (fmul (values i) (weights i))) x i,
                      (\<lambda>acc i. fadd acc (weights i)) y i))
        (spec_horizontal (lane4 (fst ?lanes)), spec_horizontal (lane4 (snd ?lanes)))"
    by (simp add: weighted_sums_def Let_def case_prod_beta horizontal_sum_lanes)
  also have "\<dots> = (spec_weighted_total values weights count, spec_weight_total weights count)"
    unfolding h1 h2 spec_weighted_total_def spec_weight_total_def
    by (rule tail_loop_foldl) (rule and_not3_le)
  finally show ?thesis .
qed

subsection \<open>The guard on the total of the weights\<close>

lemma weighted_average_from_inputs:
  "weighted_average values weights count =
     (if fgt (spec_weight_total weights count) (Fin 0)
      then fdiv (spec_weighted_total values weights count) (spec_weight_total weights count)
      else Fin 0)"
  by (simp add: weighted_average_def weighted_sums_from_inputs)

lemma fle_not_fgt: "fle x y \<Longrightarrow> \<not> fgt x y"
  by (simp add: fle_def fgt_def)

lemma spec_weight_total_empty: "spec_weight_total weights 0 = Fin 0"
  by (simp add: spec_weight_total_def spec_horizontal_def spec_lane_weight_def
      lane_positions_def and_not3_zero)

text \<open>
  C5.  The total of the weights is the one the kernel accumulates in single precision,
  lane-wise, reduced horizontally, then the tail in order.  The kernel returns 0 whenever
  that total is less than or equal to 0, and whenever \<open>count = 0\<close>; whenever it is greater
  than 0 the kernel returns the weighted sum, accumulated alike, divided by it.  (A total
  that is neither, a NaN, is the subject of C10.)
\<close>

theorem weighted_average_guard:
  "(fle (spec_weight_total weights count) (Fin 0) \<longrightarrow>
      weighted_average values weights count = Fin 0) \<and>
   (count = 0 \<longrightarrow> weighted_average values weights count = Fin 0) \<and>
   (fgt (spec_weight_total weights count) (Fin 0) \<longrightarrow>
      weighted_average values weights count =
        fdiv (spec_weighted_total values weights count) (spec_weight_total weights count))"
  by (auto simp: weighted_average_from_inputs spec_weight_total_empty fgt_def
      dest: fle_not_fgt)

text \<open>
  One value with a NaN weight: the total is a NaN, so it is not less than or equal to 0,
  and \<open>count\<close> is 1; the quotient of the two sums is a NaN, and the kernel returns 0.
  And the weights \<open>2^24, 1, -2^24\<close> with the values 1, 1, 1: their exact total is 1, above
  0, and so is the exact weighted sum, but in single precision \<open>2^24 + 1\<close> rounds to
  \<open>2^24\<close>, the accumulated total is 0, and the kernel returns 0, not 1.
\<close>

theorem weighted_average_nan_total:
  "\<not> fle (spec_weight_total (buffer [NaN]) 1) (Fin 0) \<and>
   (1::nat) \<noteq> 0 \<and>
   weighted_average (buffer [Fin 1]) (buffer [NaN]) 1 = Fin 0 \<and>
   fdiv (spec_weighted_total (buffer [Fin 1]) (buffer [NaN]) 1)
        (spec_weight_total (buffer [NaN]) 1) = NaN \<and>
   sum_list (map fval [Fin 16777216, Fin 1, Fin (- 16777216)]) = 1 \<and>
   fval (Fin 1) * fval (Fin 16777216) + fval (Fin 1) * fval (Fin 1) +
     fval (Fin 1) * fval (Fin (- 16777216)) = 1 \<and>
   weighted_average (buffer [Fin 1, Fin 1, Fin 1])
     (buffer [Fin 16777216, Fin 1, Fin (- 16777216)]) 3 = Fin 0"
  by code_simp

text \<open>
  Values 2, 4, 6, 8, 10 with equal weights 1, four in the lanes and one in the tail, have
  the average 6; the weight \<open>-1\<close> alone gives a negative total and the result 0; and so
  does \<open>count = 0\<close>.
\<close>

theorem weighted_average_guard_witness:
  "fgt (spec_weight_total (buffer (map Fin [1, 1, 1, 1, 1])) 5) (Fin 0) \<and>
   weighted_average (buffer (map Fin [2, 4, 6, 8, 10])) (buffer (map Fin [1, 1, 1, 1, 1])) 5 = Fin 6 \<and>
   fle (spec_weight_total (buffer [Fin (- 1)]) 1) (Fin 0) \<and>
   weighted_average (buffer [Fin 3]) (buffer [Fin (- 1)]) 1 = Fin 0 \<and>
   weighted_average (buffer [Fin 3]) (buffer [Fin (- 1)]) 0 = Fin 0"
proof -
  let ?v = "buffer (map Fin [2, 4, 6, 8, 10])" and ?w = "buffer (map Fin [1, 1, 1, 1, 1])"
  let ?x = "buffer [Fin 3]" and ?y = "buffer [Fin (- 1)]"
  have a: "fgt (spec_weight_total ?w 5) (Fin 0)"
    and b: "fdiv (spec_weighted_total ?v ?w 5) (spec_weight_total ?w 5) = Fin 6"
    and c: "fle (spec_weight_total ?y 1) (Fin 0)"
    by code_simp+
  from weighted_average_guard [of ?w 5 ?v] a b have "weighted_average ?v ?w 5 = Fin 6"
    by simp
  moreover from weighted_average_guard [of ?y 1 ?x] c have "weighted_average ?x ?y 1 = Fin 0"
    by blast
  moreover from weighted_average_guard [of ?y 0 ?x] have "weighted_average ?x ?y 0 = Fin 0"
    by blast
  ultimately show ?thesis using a c by blast
qed

subsection \<open>A total that is not a number\<close>

text \<open>
  The total of the weights is built by additions only, so a value that addition cannot
  leave stays in it: a NaN weight makes the total a NaN, and a weight \<open>+\<infinity>\<close>
  together with a weight \<open>-\<infinity>\<close> makes it a NaN as well.
\<close>

lemma horizontal_sum_absorbs:
  assumes A: "\<And>x y. x \<in> A \<Longrightarrow> fadd x y \<in> A" "\<And>x y. y \<in> A \<Longrightarrow> fadd x y \<in> A"
    and "k < 4" and "lane4 v k \<in> A"
  shows "vget_lane_f32 (vpadd_f32 (vadd_f32 (vget_low_f32 v) (vget_high_f32 v))
                                  (vadd_f32 (vget_low_f32 v) (vget_high_f32 v))) 0 \<in> A"
proof -
  obtain a b c d where v: "v = V4 a b c d" by (cases v)
  from lane4_cases [OF assms(3)] assms(4) show ?thesis
    by (auto simp: v vget_lane_f32_def) (blast intro: A)+
qed

lemma weight_sum_absorbs:
  assumes A: "\<And>x y. x \<in> A \<Longrightarrow> fadd x y \<in> A" "\<And>x y. y \<in> A \<Longrightarrow> fadd x y \<in> A"
    and "i < count" and "weights i \<in> A"
  shows "weight_sum values weights count \<in> A"
proof -
  let ?S = "and_not3 count"
  let ?lbody = "\<lambda>i (sum_weighted, sum_weights).
                 let vals = vld1q_f32 values i;
                     wts = vld1q_f32 weights i
                 in (vfmaq_f32 sum_weighted vals wts, vaddq_f32 sum_weights wts)"
  let ?lanes = "loop4 0 ?S ?lbody (vdupq_n_f32 (Fin 0), vdupq_n_f32 (Fin 0))"
  let ?P = "\<lambda>j (st :: float32x4_t \<times> float32x4_t).
      4 dvd j \<and> (\<forall>i<j. weights i \<in> A \<longrightarrow> lane4 (snd st) (i mod 4) \<in> A)"
  have lanes: "?P ?S ?lanes"
  proof (rule loop4_rule [where P = ?P])
    show "0 \<le> ?S" by simp
    show "4 dvd (?S - 0)" by (simp add: and_not3_dvd)
    show "?P 0 (vdupq_n_f32 (Fin 0), vdupq_n_f32 (Fin 0))" by simp
  next
    fix j and t :: "float32x4_t \<times> float32x4_t"
    assume inv: "?P j t"
    obtain sw sws where t: "t = (sw, sws)" by (cases t)
    have b: "snd (?lbody j t) = vaddq_f32 sws (vld1q_f32 weights j)"
      by (simp add: t Let_def)
    have "lane4 (snd (?lbody j t)) (i mod 4) \<in> A" if "i < j + 4" "weights i \<in> A" for i
    proof (cases "i < j")
      case True
      with inv that t have "lane4 sws (i mod 4) \<in> A" by simp
      then show ?thesis unfolding b by (simp add: lane4_vaddq_f32 A)
    next
      case False
      with that(1) obtain k where k: "k < 4" "i = j + k"
        by (metis add_diff_inverse_nat nat_add_left_cancel_less)
      with inv have "i mod 4 = k" by (auto simp: dvd_def)
      with k that(2) show ?thesis unfolding b
        by (simp add: lane4_vaddq_f32 lane4_vld1q_f32 A)
    qed
    with inv show "?P (j + 4) (?lbody j t)" by simp
  qed
  let ?ws0 = "vget_lane_f32 (vpadd_f32 (vadd_f32 (vget_low_f32 (fst ?lanes)) (vget_high_f32 (fst ?lanes)))
                 (vadd_f32 (vget_low_f32 (fst ?lanes)) (vget_high_f32 (fst ?lanes)))) 0"
  let ?w0 = "vget_lane_f32 (vpadd_f32 (vadd_f32 (vget_low_f32 (snd ?lanes)) (vget_high_f32 (snd ?lanes)))
                 (vadd_f32 (vget_low_f32 (snd ?lanes)) (vget_high_f32 (snd ?lanes)))) 0"
  let ?tbody = "\<lambda>i (weighted_sum, weight_sum).
              (fadd weighted_sum (fmul (values i) (weights i)), fadd weight_sum (weights i))"
  let ?Q = "\<lambda>j (st :: f32 \<times> f32). (\<exists>i<j. weights i \<in> A) \<longrightarrow> snd st \<in> A"
  have "?Q count (loop1 ?S count ?tbody (?ws0, ?w0))"
  proof (rule loop1_rule [where P = ?Q])
    show "?S \<le> count" by (rule and_not3_le)
    show "?Q ?S (?ws0, ?w0)"
    proof
      assume "\<exists>i<?S. weights i \<in> A"
      then obtain i where "i < ?S" "weights i \<in> A" by blast
      with lanes have "lane4 (snd ?lanes) (i mod 4) \<in> A" by simp
      moreover have "i mod 4 < 4" by simp
      ultimately have "?w0 \<in> A" using A by (intro horizontal_sum_absorbs [where k = "i mod 4"])
      then show "snd (?ws0, ?w0) \<in> A" by simp
    qed
  next
    fix j and t :: "f32 \<times> f32"
    assume inv: "?Q j t"
    obtain a b where t: "t = (a, b)" by (cases t)
    show "?Q (j + 1) (?tbody j t)"
    proof
      assume "\<exists>i<j + 1. weights i \<in> A"
      then consider "\<exists>i<j. weights i \<in> A" | "weights j \<in> A"
        by (auto simp: less_Suc_eq)
      then show "snd (?tbody j t) \<in> A"
      proof cases
        case 1
        with inv t show ?thesis by (simp add: A)
      next
        case 2
        then show ?thesis by (simp add: t A)
      qed
    qed
  qed
  with assms(3,4) have "snd (loop1 ?S count ?tbody (?ws0, ?w0)) \<in> A" by blast
  then show ?thesis
    by (simp add: weight_sum_def weighted_sums_def Let_def case_prod_beta)
qed

lemma fadd_absorbs_NaN: "x \<in> {NaN} \<Longrightarrow> fadd x y \<in> {NaN}" "y \<in> {NaN} \<Longrightarrow> fadd x y \<in> {NaN}"
  by (simp_all add: fadd_NaN_right)

lemma fadd_absorbs_PInf: "x \<in> {PInf, NaN} \<Longrightarrow> fadd x y \<in> {PInf, NaN}"
  "y \<in> {PInf, NaN} \<Longrightarrow> fadd x y \<in> {PInf, NaN}"
  by (cases x; cases y; simp)+

lemma fadd_absorbs_NInf: "x \<in> {NInf, NaN} \<Longrightarrow> fadd x y \<in> {NInf, NaN}"
  "y \<in> {NInf, NaN} \<Longrightarrow> fadd x y \<in> {NInf, NaN}"
  by (cases x; cases y; simp)+

lemma weight_sum_NaN_weight:
  assumes "i < count" and "weights i = NaN"
  shows "weight_sum values weights count = NaN"
proof -
  have "weight_sum values weights count \<in> {NaN}"
    using assms by (intro weight_sum_absorbs [where i = i] fadd_absorbs_NaN) simp_all
  then show ?thesis by simp
qed

lemma weight_sum_opposite_infinities:
  assumes "i < count" and "weights i = PInf" and "j < count" and "weights j = NInf"
  shows "weight_sum values weights count = NaN"
proof -
  have "weight_sum values weights count \<in> {PInf, NaN}"
    using assms(1,2) by (intro weight_sum_absorbs [where i = i] fadd_absorbs_PInf) simp_all
  moreover have "weight_sum values weights count \<in> {NInf, NaN}"
    using assms(3,4) by (intro weight_sum_absorbs [where i = j] fadd_absorbs_NInf) simp_all
  ultimately show ?thesis by auto
qed

text \<open>
  C10.  If the accumulated total of the weights is a NaN, the kernel returns 0: the guard
  \<^verbatim>\<open>weight_sum > 0.0f\<close> is false for a NaN.  By the two lemmas above the total is a
  NaN as soon as some weight is a NaN, or the weights hold both \<open>+\<infinity>\<close> and
  \<open>-\<infinity>\<close>.
\<close>

theorem weighted_average_nan_fallback:
  "weight_sum values weights count = NaN \<Longrightarrow> weighted_average values weights count = Fin 0"
  by (simp add: weighted_average_unfold fgt_def)

text \<open>
  A NaN among the weights makes the total a NaN, and so do the weights \<open>+\<infinity>\<close> and
  \<open>-\<infinity>\<close> together; in both cases the result is 0.
\<close>

theorem weighted_average_nan_fallback_witness:
  "weight_sum (buffer [Fin 1, Fin 2]) (buffer [Fin 1, NaN]) 2 = NaN \<and>
   weighted_average (buffer [Fin 1, Fin 2]) (buffer [Fin 1, NaN]) 2 = Fin 0 \<and>
   weight_sum (buffer (map Fin [1, 2, 3, 4, 5])) (buffer [PInf, Fin 1, Fin 1, Fin 1, NInf]) 5 = NaN \<and>
   weighted_average (buffer (map Fin [1, 2, 3, 4, 5])) (buffer [PInf, Fin 1, Fin 1, Fin 1, NInf]) 5
     = Fin 0"
proof -
  let ?v = "buffer [Fin 1, Fin 2]" and ?w = "buffer [Fin 1, NaN]"
  let ?x = "buffer (map Fin [1, 2, 3, 4, 5])" and ?y = "buffer [PInf, Fin 1, Fin 1, Fin 1, NInf]"
  have a: "weight_sum ?v ?w 2 = NaN" and b: "weight_sum ?x ?y 5 = NaN"
    by code_simp+
  from a b weighted_average_nan_fallback [OF a] weighted_average_nan_fallback [OF b]
  show ?thesis by blast
qed

section \<open>Index of the minimum\<close>

subsection \<open>One step of the lane loop, lane by lane\<close>

lemma bsl_f32_mask: "bsl_f32 (lane_mask b) x y = (if b then x else y)"
  by (simp add: bsl_f32_def lane_mask_def)

lemma bsl_u32_mask: "bsl_u32 (lane_mask b) x y = (if b then x else y)"
  by (simp add: bsl_u32_def lane_mask_def)

lemma min_index_step_lane:
  assumes "k < 4" and "min_index_step a i (mv, iv) = (mv', iv')"
  shows "lane4 mv' k = (if flt (a (i + k)) (lane4 mv k) then a (i + k) else lane4 mv k)"
    and "lane4 iv' k = (if flt (a (i + k)) (lane4 mv k) then word_of_nat (i + k) else lane4 iv k)"
proof -
  obtain m0 m1 m2 m3 where mv: "mv = V4 m0 m1 m2 m3" by (cases mv)
  obtain j0 j1 j2 j3 where iv: "iv = V4 j0 j1 j2 j3" by (cases iv)
  from assms(2) have
    "mv' = V4 (if flt (a i) m0 then a i else m0) (if flt (a (i + 1)) m1 then a (i + 1) else m1)
              (if flt (a (i + 2)) m2 then a (i + 2) else m2)
              (if flt (a (i + 3)) m3 then a (i + 3) else m3)"
    "iv' = V4 (if flt (a i) m0 then word_of_nat i else j0)
              (if flt (a (i + 1)) m1 then word_of_nat (i + 1) else j1)
              (if flt (a (i + 2)) m2 then word_of_nat (i + 2) else j2)
              (if flt (a (i + 3)) m3 then word_of_nat (i + 3) else j3)"
    by (auto simp: min_index_step_def Let_def vld1q_f32_def mv iv bsl_f32_mask bsl_u32_mask)
  with lane4_cases [OF assms(1)] mv iv
  show "lane4 mv' k = (if flt (a (i + k)) (lane4 mv k) then a (i + k) else lane4 mv k)"
    and "lane4 iv' k = (if flt (a (i + k)) (lane4 mv k) then word_of_nat (i + k) else lane4 iv k)"
    by auto
qed

subsection \<open>The returned index is a position of the array\<close>

lemma unat_word_of_nat_le: "unat (word_of_nat n :: 32 word) \<le> n"
  by (simp add: unat_of_nat)

lemma min_index_lanes_index_bound:
  assumes "4 \<le> S" and "4 dvd S" and "k < 4"
  shows "unat (lane4 (snd (min_index_lanes a S)) k) < S"
proof -
  let ?P = "\<lambda>j (st :: float32x4_t \<times> uint32x4_t). \<forall>k<4. unat (lane4 (snd st) k) < j"
  have "?P S (loop4 4 S (min_index_step a) (vld1q_f32 a 0, (V4 0 1 2 3 :: uint32x4_t)))"
  proof (rule loop4_rule [where P = ?P])
    show "4 \<le> S" by (rule assms)
    show "4 dvd (S - 4)" using assms by (simp add: dvd_diff_nat)
    show "?P 4 (vld1q_f32 a 0, (V4 0 1 2 3 :: uint32x4_t))"
    proof (intro allI impI)
      fix k :: nat assume "k < 4"
      from lane4_cases [OF this] show "unat (lane4 (snd (vld1q_f32 a 0, (V4 0 1 2 3 :: uint32x4_t))) k) < 4"
        by auto
    qed
  next
    fix j and t :: "float32x4_t \<times> uint32x4_t"
    assume inv: "?P j t"
    obtain mv iv where t: "t = (mv, iv)" by (cases t)
    obtain mv' iv' where s: "min_index_step a j (mv, iv) = (mv', iv')"
      by (cases "min_index_step a j (mv, iv)")
    show "?P (j + 4) (min_index_step a j t)"
    proof (intro allI impI)
      fix k :: nat assume k: "k < 4"
      have "unat (word_of_nat (j + k) :: 32 word) < j + 4"
        using unat_word_of_nat_le [of "j + k"] k by simp
      moreover have "unat (lane4 iv k) < j + 4" using inv k t by auto
      ultimately show "unat (lane4 (snd (min_index_step a j t)) k) < j + 4"
        using min_index_step_lane(2) [OF k s] by (simp add: t s)
    qed
  qed
  with assms(3) show ?thesis by (simp add: min_index_lanes_def Let_def)
qed

lemma min_index_collapse_index_bound:
  assumes "\<forall>k<4. unat (lane4 iv k) < S" and "r < S"
  shows "snd (min_index_collapse (mv, iv) (v, r)) < S"
proof -
  let ?body = "\<lambda>i (min_val, min_idx).
      if flt (lane4 mv i) min_val then (lane4 mv i, unat (lane4 iv i)) else (min_val, min_idx)"
  let ?P = "\<lambda>(j :: nat) (st :: f32 \<times> nat). snd st < S"
  have "?P 4 (loop1 0 4 ?body (v, r))"
  proof (rule loop1_rule [where P = ?P])
    show "(0::nat) \<le> 4" by simp
    show "?P 0 (v, r)" using assms(2) by simp
  next
    fix j and t :: "f32 \<times> nat"
    assume "j < 4" and "?P j t"
    with assms(1) show "?P (j + 1) (?body j t)" by (cases t) auto
  qed
  then show ?thesis by (simp add: min_index_collapse_def)
qed

lemma min_index_tail_index_bound:
  assumes "r < count" and "S \<le> count"
  shows "snd (loop1 S count
           (\<lambda>i (min_val, min_idx). if flt (a i) min_val then (a i, i) else (min_val, min_idx))
           (v, r)) < count"
proof -
  let ?body = "\<lambda>i (min_val, min_idx). if flt (a i) min_val then (a i, i) else (min_val, min_idx)"
  let ?P = "\<lambda>(j :: nat) (st :: f32 \<times> nat). snd st < count"
  show "?P count (loop1 S count ?body (v, r))"
  proof (rule loop1_rule [where P = ?P])
    show "S \<le> count" by (rule assms)
    show "?P S (v, r)" using assms(1) by simp
  next
    fix j and t :: "f32 \<times> nat"
    assume "j < count" and "?P j t"
    then show "?P (j + 1) (?body j t)" by (cases t) auto
  qed
qed

text \<open>
  C9.  For every array with \<open>count > 0\<close>, whatever its values, \<open>min_index\<close> returns an
  index below \<open>count\<close>: a lane index is the narrowing of a position already visited,
  which is never larger than that position, and the tail loop only stores indices below
  \<open>count\<close>.
\<close>

theorem min_index_in_range: "0 < count \<Longrightarrow> min_index array count < count"
proof -
  assume pos: "0 < count"
  let ?S = "and_not3 count"
  let ?body = "\<lambda>i (min_val, min_idx).
      if flt (array i) min_val then (array i, i) else (min_val, min_idx)"
  let ?start = "if 4 \<le> ?S then min_index_collapse (min_index_lanes array ?S) (array 0, 0)
                else (array 0, 0)"
  have "snd ?start < count"
  proof (cases "4 \<le> ?S")
    case True
    obtain mv iv where l: "min_index_lanes array ?S = (mv, iv)"
      by (cases "min_index_lanes array ?S")
    have "\<forall>k<4. unat (lane4 iv k) < ?S"
      using min_index_lanes_index_bound [OF True and_not3_dvd, of _ array] l by simp
    moreover have "0 < ?S" using True by simp
    ultimately have "snd (min_index_collapse (mv, iv) (array 0, 0)) < ?S"
      by (rule min_index_collapse_index_bound)
    with True l and_not3_le [of count] show ?thesis by simp
  next
    case False
    with pos show ?thesis by simp
  qed
  then have "snd (loop1 ?S count ?body (fst ?start, snd ?start)) < count"
    using and_not3_le by (rule min_index_tail_index_bound)
  with pos show ?thesis
    by (auto simp: min_index_def Let_def split: prod.split)
qed

text \<open>Nine elements, two of them NaN: the minimum 0 is at index 7.\<close>

theorem min_index_in_range_witness:
  "(0::nat) < 9 \<and>
   min_index (buffer [Fin 5, NaN, Fin 8, Fin 1, Fin 6, Fin 2, NaN, Fin 0, Fin 4]) 9 < 9 \<and>
   min_index (buffer [Fin 5, NaN, Fin 8, Fin 1, Fin 6, Fin 2, NaN, Fin 0, Fin 4]) 9 = 7"
proof -
  let ?b = "buffer [Fin 5, NaN, Fin 8, Fin 1, Fin 6, Fin 2, NaN, Fin 0, Fin 4]"
  have pos: "(0::nat) < 9" by simp
  have "min_index ?b 9 = 7" by code_simp
  with pos min_index_in_range [OF pos, of ?b] show ?thesis by blast
qed

subsection \<open>What the lane loop leaves in each lane\<close>

text \<open>
  On an array without NaN, lane \<open>k\<close> ends with the least value among the positions
  \<open>k, k + 4, k + 8, ...\<close> below the loop bound, and with the 32-bit narrowing of the
  first position that holds it.
\<close>

lemma lane_position: "4 dvd j \<Longrightarrow> k < 4 \<Longrightarrow> (j + k) mod 4 = (k::nat)"
  by (auto simp: dvd_def)

lemma lane_member:
  "4 dvd j \<Longrightarrow> k < 4 \<Longrightarrow> q < j + 4 \<Longrightarrow> q mod 4 = k \<Longrightarrow> q < j \<or> q = j + (k::nat)"
  by (auto simp: dvd_def) presburger

lemma next_group_le:
  assumes "j < S" and "4 dvd (S - j)"
  shows "j + 4 \<le> (S::nat)"
proof -
  from assms(2) obtain m where m: "S - j = 4 * m" by (auto simp: dvd_def)
  with assms(1) have "m \<noteq> 0" by auto
  with m show ?thesis by simp
qed

lemma min_index_lanes_first_minimum:
  assumes S: "4 \<le> S" "4 dvd S" and nan: "\<forall>q<S. a q \<noteq> NaN" and k: "k < 4"
  shows "\<exists>p<S. p mod 4 = k \<and> lane4 (fst (min_index_lanes a S)) k = a p \<and>
           lane4 (snd (min_index_lanes a S)) k = word_of_nat p \<and>
           (\<forall>q<S. q mod 4 = k \<longrightarrow> \<not> flt (a q) (a p)) \<and>
           (\<forall>q<p. q mod 4 = k \<longrightarrow> flt (a p) (a q))"
proof -
  let ?L = "\<lambda>j (st :: float32x4_t \<times> uint32x4_t) k p.
      p < j \<and> p mod 4 = k \<and> lane4 (fst st) k = a p \<and> lane4 (snd st) k = word_of_nat p \<and>
      (\<forall>q<j. q mod 4 = k \<longrightarrow> \<not> flt (a q) (a p)) \<and>
      (\<forall>q<p. q mod 4 = k \<longrightarrow> flt (a p) (a q))"
  let ?P = "\<lambda>j st. \<forall>k<4. \<exists>p. ?L j st k p"
  have "?P S (loop4 4 S (min_index_step a) (vld1q_f32 a 0, (V4 0 1 2 3 :: uint32x4_t)))"
  proof (rule loop4_rule [where P = ?P])
    show "4 \<le> S" by (rule S)
    show "4 dvd (S - 4)" using S by (simp add: dvd_diff_nat)
    show "?P 4 (vld1q_f32 a 0, (V4 0 1 2 3 :: uint32x4_t))"
    proof (intro allI impI)
      fix k :: nat assume k: "k < 4"
      have "?L 4 (vld1q_f32 a 0, (V4 0 1 2 3 :: uint32x4_t)) k k"
      proof (intro conjI allI impI)
        show "k < 4" by (rule k)
        show "k mod 4 = k" using k by simp
        show "lane4 (fst (vld1q_f32 a 0, (V4 0 1 2 3 :: uint32x4_t))) k = a k"
          using lane4_cases [OF k] by (auto simp: vld1q_f32_def numeral_2_eq_2 numeral_3_eq_3)
        show "lane4 (snd (vld1q_f32 a 0, (V4 0 1 2 3 :: uint32x4_t))) k = word_of_nat k"
          using lane4_cases [OF k] by auto
      next
        fix q :: nat assume "q < 4" "q mod 4 = k"
        then have "q = k" by simp
        then show "\<not> flt (a q) (a k)" by (simp add: flt_irrefl)
      next
        fix q :: nat assume "q < k" "q mod 4 = k"
        with k have False by simp
        then show "flt (a k) (a q)" ..
      qed
      then show "\<exists>p. ?L 4 (vld1q_f32 a 0, (V4 0 1 2 3 :: uint32x4_t)) k p" ..
    qed
  next
    fix j and t :: "float32x4_t \<times> uint32x4_t"
    assume j: "4 \<le> j" "j < S" "4 dvd (S - j)" and inv: "?P j t"
    from S(2) j(3) have "4 dvd (S - (S - j))" by (rule dvd_diff_nat)
    with j(2) have dj: "4 dvd j" by simp
    from j(2,3) have j4: "j + 4 \<le> S" by (rule next_group_le)
    obtain mv iv where t: "t = (mv, iv)" by (cases t)
    obtain mv' iv' where s: "min_index_step a j (mv, iv) = (mv', iv')"
      by (cases "min_index_step a j (mv, iv)")
    show "?P (j + 4) (min_index_step a j t)"
    proof (intro allI impI)
      fix k :: nat assume k: "k < 4"
      from inv k obtain p where p: "?L j t k p" by blast
      note lane = min_index_step_lane [OF k s]
      from p t have mvk: "lane4 mv k = a p" and ivk: "lane4 iv k = word_of_nat p" by simp_all
      have pS: "p < S" and jkS: "j + k < S" using p j4 k by simp_all
      show "\<exists>p. ?L (j + 4) (min_index_step a j t) k p"
      proof (cases "flt (a (j + k)) (a p)")
        case True
        have "?L (j + 4) (min_index_step a j t) k (j + k)"
        proof (intro conjI allI impI)
          show "j + k < j + 4" using k by simp
          show "(j + k) mod 4 = k" using dj k by (rule lane_position)
          show "lane4 (fst (min_index_step a j t)) k = a (j + k)"
            using lane(1) True by (simp add: t s mvk)
          show "lane4 (snd (min_index_step a j t)) k = word_of_nat (j + k)"
            using lane(2) True by (simp add: t s mvk)
        next
          fix q :: nat assume q: "q < j + 4" "q mod 4 = k"
          from lane_member [OF dj k q] show "\<not> flt (a q) (a (j + k))"
          proof
            assume "q < j"
            with p q(2) have "\<not> flt (a q) (a p)" by simp
            with True show ?thesis using flt_trans by blast
          next
            assume "q = j + k"
            then show ?thesis by (simp add: flt_irrefl)
          qed
        next
          fix q :: nat assume q: "q < j + k" "q mod 4 = k"
          then have "q < j + 4" using k by simp
          from lane_member [OF dj k this q(2)] q(1) have qj: "q < j" by auto
          with p q(2) have "\<not> flt (a q) (a p)" by simp
          moreover from qj j4 nan pS have "a q \<noteq> NaN" "a p \<noteq> NaN" by simp_all
          ultimately show "flt (a (j + k)) (a q)" using True flt_below by blast
        qed
        then show ?thesis ..
      next
        case False
        have "?L (j + 4) (min_index_step a j t) k p"
        proof (intro conjI allI impI)
          show "p < j + 4" using p by simp
          show "p mod 4 = k" using p by simp
          show "lane4 (fst (min_index_step a j t)) k = a p"
            using lane(1) False by (simp add: t s mvk)
          show "lane4 (snd (min_index_step a j t)) k = word_of_nat p"
            using lane(2) False by (simp add: t s mvk ivk)
        next
          fix q :: nat assume q: "q < j + 4" "q mod 4 = k"
          from lane_member [OF dj k q] show "\<not> flt (a q) (a p)"
          proof
            assume "q < j"
            with p q(2) show ?thesis by simp
          next
            assume "q = j + k"
            with False show ?thesis by simp
          qed
        next
          fix q :: nat assume "q < p" "q mod 4 = k"
          with p show "flt (a p) (a q)" by simp
        qed
        then show ?thesis ..
      qed
    qed
  qed
  with k show ?thesis
    unfolding min_index_lanes_def Let_def by blast
qed

subsection \<open>Collapse of the lanes, and the tail\<close>

text \<open>
  As long as the lane indices fit 32 bits, the collapse returns a position of the least
  value of the lane region; a tie between lanes goes to the lowest lane, because the
  lanes are compared in order with a strict \<open><\<close>.  The tail replaces the candidate only
  by a strictly smaller element.
\<close>

lemma unat_word_of_nat_small: "p < 2 ^ 32 \<Longrightarrow> unat (word_of_nat p :: 32 word) = p"
  by (simp add: unat_of_nat)

lemma min_index_collapse_minimum:
  assumes S: "4 \<le> S" "4 dvd S" "S \<le> 2 ^ 32" and nan: "\<forall>q<S. a q \<noteq> NaN"
  obtains r where "min_index_collapse (min_index_lanes a S) (a 0, 0) = (a r, r)"
    and "r < S" and "\<forall>q<S. \<not> flt (a q) (a r)"
    and "\<forall>q<r. a q = a r \<longrightarrow> r mod 4 < q mod 4"
proof -
  obtain mv iv where l: "min_index_lanes a S = (mv, iv)"
    by (cases "min_index_lanes a S")
  let ?body = "\<lambda>i (min_val, min_idx).
      if flt (lane4 mv i) min_val then (lane4 mv i, unat (lane4 iv i)) else (min_val, min_idx)"
  let ?C = "\<lambda>k (st :: f32 \<times> nat). fst st = a (snd st) \<and> snd st < S \<and>
      (\<forall>q<S. q mod 4 < k \<longrightarrow> \<not> flt (a q) (a (snd st))) \<and>
      (\<forall>q. q < snd st \<longrightarrow> a q = a (snd st) \<longrightarrow> snd st mod 4 < q mod 4)"
  have "?C 4 (loop1 0 4 ?body (a 0, 0))"
  proof (rule loop1_rule [where P = ?C])
    show "(0::nat) \<le> 4" by simp
    show "?C 0 (a 0, 0)" using S(1) by simp
  next
    fix k and t :: "f32 \<times> nat"
    assume k: "k < 4" and inv: "?C k t"
    obtain v r where t: "t = (v, r)" by (cases t)
    from inv t have v: "v = a r" and r: "r < S"
      and low: "\<forall>q<S. q mod 4 < k \<longrightarrow> \<not> flt (a q) (a r)"
      and tie: "\<forall>q<r. a q = a r \<longrightarrow> r mod 4 < q mod 4"
      by simp_all
    from min_index_lanes_first_minimum [OF S(1,2) nan k] l
    obtain p where p: "p < S" "p mod 4 = k" "lane4 mv k = a p" "lane4 iv k = word_of_nat p"
      and pmin: "\<forall>q<S. q mod 4 = k \<longrightarrow> \<not> flt (a q) (a p)"
      and pfirst: "\<forall>q<p. q mod 4 = k \<longrightarrow> flt (a p) (a q)"
      by auto
    from p(1) S(3) have up: "unat (word_of_nat p :: 32 word) = p"
      by (simp add: unat_word_of_nat_small)
    show "?C (k + 1) (?body k t)"
    proof (cases "flt (a p) (a r)")
      case True
      then have b: "?body k t = (a p, p)" by (simp add: t v p up)
      have "\<not> flt (a q) (a p)" if "q < S" "q mod 4 < k + 1" for q
      proof (cases "q mod 4 = k")
        case True
        with pmin that show ?thesis by simp
      next
        case False
        with that have "q mod 4 < k" by simp
        with low that have "\<not> flt (a q) (a r)" by simp
        with True show ?thesis using flt_trans by blast
      qed
      moreover have "k < q mod 4" if "q < p" "a q = a p" for q
      proof (rule ccontr)
        assume "\<not> k < q mod 4"
        then consider "q mod 4 = k" | "q mod 4 < k" by linarith
        then show False
        proof cases
          case 1
          with pfirst that(1) have "flt (a p) (a q)" by blast
          with that(2) show False by (simp add: flt_irrefl)
        next
          case 2
          from that p(1) have "q < S" by simp
          with low 2 have "\<not> flt (a q) (a r)" by simp
          with True that show False by simp
        qed
      qed
      ultimately show ?thesis unfolding b using p(1,2) by simp
    next
      case False
      then have b: "?body k t = (a r, r)" by (simp add: t v p)
      have "\<not> flt (a q) (a r)" if "q < S" "q mod 4 < k + 1" for q
      proof (cases "q mod 4 = k")
        case True
        with pmin that have "\<not> flt (a q) (a p)" by simp
        moreover from nan that p(1) r have "a q \<noteq> NaN" "a p \<noteq> NaN" "a r \<noteq> NaN"
          by simp_all
        ultimately show ?thesis using False not_flt_trans by blast
      next
        case False
        with that have "q mod 4 < k" by simp
        with low that show ?thesis by simp
      qed
      with r tie show ?thesis unfolding b by simp
    qed
  qed
  then have "?C 4 (min_index_collapse (min_index_lanes a S) (a 0, 0))"
    by (simp add: min_index_collapse_def l)
  then show thesis
    by (intro that [of "snd (min_index_collapse (min_index_lanes a S) (a 0, 0))"])
       (auto simp: prod_eq_iff)
qed

lemma min_index_tail_minimum:
  assumes "S \<le> count" and "r < count" and "\<forall>q<S. \<not> flt (a q) (a r)"
    and "\<forall>q<r. a q = a r \<longrightarrow> r < S \<and> r mod 4 < q mod 4"
  obtains r' where
    "loop1 S count
       (\<lambda>i (min_val, min_idx). if flt (a i) min_val then (a i, i) else (min_val, min_idx))
       (a r, r) = (a r', r')"
    and "r' < count" and "\<forall>q<count. \<not> flt (a q) (a r')"
    and "\<forall>q<r'. a q = a r' \<longrightarrow> r' < S \<and> r' mod 4 < q mod 4"
proof -
  let ?body = "\<lambda>i (min_val, min_idx). if flt (a i) min_val then (a i, i) else (min_val, min_idx)"
  let ?T = "\<lambda>j (st :: f32 \<times> nat). fst st = a (snd st) \<and> snd st < count \<and>
      (\<forall>q<j. \<not> flt (a q) (a (snd st))) \<and>
      (\<forall>q. q < snd st \<longrightarrow> a q = a (snd st) \<longrightarrow> snd st < S \<and> snd st mod 4 < q mod 4)"
  have "?T count (loop1 S count ?body (a r, r))"
  proof (rule loop1_rule [where P = ?T])
    show "S \<le> count" by (rule assms)
    show "?T S (a r, r)" using assms by simp
  next
    fix j and t :: "f32 \<times> nat"
    assume j: "S \<le> j" "j < count" and inv: "?T j t"
    obtain v m where t: "t = (v, m)" by (cases t)
    from inv t have v: "v = a m" and m: "m < count"
      and low: "\<forall>q<j. \<not> flt (a q) (a m)"
      and tie: "\<forall>q<m. a q = a m \<longrightarrow> m < S \<and> m mod 4 < q mod 4"
      by simp_all
    show "?T (j + 1) (?body j t)"
    proof (cases "flt (a j) (a m)")
      case True
      then have b: "?body j t = (a j, j)" by (simp add: t v)
      have "\<not> flt (a q) (a j)" if "q < j + 1" for q
      proof (cases "q = j")
        case True
        then show ?thesis by (simp add: flt_irrefl)
      next
        case False
        with that low have "\<not> flt (a q) (a m)" by simp
        with True show ?thesis using flt_trans by blast
      qed
      moreover have "a q \<noteq> a j" if "q < j" for q
        using low that True by auto
      ultimately show ?thesis unfolding b using j by simp
    next
      case False
      then have b: "?body j t = (a m, m)" by (simp add: t v)
      from False low have "\<forall>q<j + 1. \<not> flt (a q) (a m)"
        by (simp add: less_Suc_eq)
      with m tie show ?thesis unfolding b by simp
    qed
  qed
  then show thesis
    by (intro that [of "snd (loop1 S count ?body (a r, r))"]) (auto simp: prod_eq_iff)
qed

lemma min_index_result:
  assumes "0 < count" and "and_not3 count \<le> 2 ^ 32" and "\<forall>q<count. a q \<noteq> NaN"
  shows "min_index a count < count"
    and "\<forall>q<count. \<not> flt (a q) (a (min_index a count))"
    and "\<forall>q<min_index a count. a q = a (min_index a count) \<longrightarrow>
           min_index a count < and_not3 count \<and> min_index a count mod 4 < q mod 4"
proof -
  let ?S = "and_not3 count"
  let ?body = "\<lambda>i (min_val, min_idx). if flt (a i) min_val then (a i, i) else (min_val, min_idx)"
  let ?start = "if 4 \<le> ?S then min_index_collapse (min_index_lanes a ?S) (a 0, 0) else (a 0, 0)"
  have mi: "min_index a count = snd (loop1 ?S count ?body ?start)"
    using assms(1) by (auto simp: min_index_def Let_def split: prod.split)
  have Sle: "?S \<le> count" by (rule and_not3_le)
  obtain r where st: "?start = (a r, r)" and r: "r < count"
    and low: "\<forall>q<?S. \<not> flt (a q) (a r)"
    and tie: "\<forall>q<r. a q = a r \<longrightarrow> r < ?S \<and> r mod 4 < q mod 4"
  proof (cases "4 \<le> ?S")
    case True
    from assms(3) Sle have "\<forall>q<?S. a q \<noteq> NaN" by simp
    from min_index_collapse_minimum [OF True and_not3_dvd assms(2) this]
    obtain r where "min_index_collapse (min_index_lanes a ?S) (a 0, 0) = (a r, r)"
      and "r < ?S" and "\<forall>q<?S. \<not> flt (a q) (a r)"
      and "\<forall>q<r. a q = a r \<longrightarrow> r mod 4 < q mod 4"
      by blast
    with True Sle show ?thesis by (intro that [of r]) auto
  next
    case False
    with and_not3_dvd [of count] have "?S = 0" by (auto simp: dvd_def)
    with False assms(1) show ?thesis by (intro that [of 0]) auto
  qed
  from min_index_tail_minimum [OF Sle r low tie]
  obtain r' where "loop1 ?S count ?body (a r, r) = (a r', r')"
    and "r' < count" and "\<forall>q<count. \<not> flt (a q) (a r')"
    and "\<forall>q<r'. a q = a r' \<longrightarrow> r' < ?S \<and> r' mod 4 < q mod 4"
    by blast
  then have "min_index a count = r'" by (simp add: mi st)
  with \<open>r' < count\<close> \<open>\<forall>q<count. \<not> flt (a q) (a r')\<close>
    \<open>\<forall>q<r'. a q = a r' \<longrightarrow> r' < ?S \<and> r' mod 4 < q mod 4\<close>
  show "min_index a count < count"
    and "\<forall>q<count. \<not> flt (a q) (a (min_index a count))"
    and "\<forall>q<min_index a count. a q = a (min_index a count) \<longrightarrow>
           min_index a count < and_not3 count \<and> min_index a count mod 4 < q mod 4"
    by simp_all
qed

subsection \<open>Ties\<close>

lemma and_not3_bound: "count < 2 ^ 32 + 4 \<Longrightarrow> and_not3 count \<le> 2 ^ 32"
  unfolding and_not3_def by simp presburger

text \<open>
  C2.  Among the indices that hold the minimum the smallest is to be returned.  Twelve
  elements, none below 0, with 0 at the indices 1 and 8: the lane loop leaves index 8 in
  lane 0 and index 1 in lane 1, the collapse takes lane 0 first and keeps it, since the
  comparison with lane 1 is strict, and the kernel returns 8.  On three elements, all in
  the scalar tail, the same strict comparison returns the smaller of two tied indices.
\<close>

theorem min_index_lowest_lane_wins:
  "min_index (buffer (map Fin [5, 0, 5, 5, 5, 5, 5, 5, 0, 5, 5, 5])) 12 = 8 \<and>
   buffer (map Fin [5, 0, 5, 5, 5, 5, 5, 5, 0, 5, 5, 5]) 8 = Fin 0 \<and>
   buffer (map Fin [5, 0, 5, 5, 5, 5, 5, 5, 0, 5, 5, 5]) 1 = Fin 0 \<and>
   list_all (fle (Fin 0)) (map Fin [5, 0, 5, 5, 5, 5, 5, 5, 0, 5, 5, 5]) \<and>
   (1::nat) < 8 \<and>
   min_index (buffer (map Fin [5, 0, 0])) 3 = 1"
  by code_simp

subsection \<open>Arrays of more than \<open>2^32\<close> elements\<close>

text \<open>The lanes of the lane loop on an array that is 1 but for one 0.\<close>

lemma spike_lanes:
  assumes S: "4 \<le> S" "4 dvd S" and n: "n < S"
  shows "lane4 (fst (min_index_lanes (spike n) S)) k =
           (if k < 4 \<and> k = n mod 4 then Fin 0 else if k < 4 then Fin 1
            else lane4 (fst (min_index_lanes (spike n) S)) k)"
    and "lane4 (snd (min_index_lanes (spike n) S)) (n mod 4) = word_of_nat n"
proof -
  have nan: "\<forall>q<S. spike n q \<noteq> NaN" by (simp add: spike_def)
  have other: "lane4 (fst (min_index_lanes (spike n) S)) k = Fin 1" if "k < 4" "k \<noteq> n mod 4" for k
  proof -
    from min_index_lanes_first_minimum [OF S nan that(1)]
    obtain p where "p mod 4 = k" "lane4 (fst (min_index_lanes (spike n) S)) k = spike n p"
      by blast
    with that(2) show ?thesis by (auto simp: spike_def)
  qed
  have k: "n mod 4 < 4" by simp
  from min_index_lanes_first_minimum [OF S nan k]
  obtain p where p: "p < S" "p mod 4 = n mod 4"
    "lane4 (fst (min_index_lanes (spike n) S)) (n mod 4) = spike n p"
    "lane4 (snd (min_index_lanes (spike n) S)) (n mod 4) = word_of_nat p"
    and pmin: "\<forall>q<S. q mod 4 = n mod 4 \<longrightarrow> \<not> flt (spike n q) (spike n p)"
    by blast
  from pmin n have "\<not> flt (spike n n) (spike n p)" by simp
  then have "p = n" by (simp add: spike_def split: if_splits)
  with p show "lane4 (snd (min_index_lanes (spike n) S)) (n mod 4) = word_of_nat n"
    by simp
  from \<open>p = n\<close> p(3) have "lane4 (fst (min_index_lanes (spike n) S)) (n mod 4) = Fin 0"
    by (simp add: spike_def)
  with other show "lane4 (fst (min_index_lanes (spike n) S)) k =
           (if k < 4 \<and> k = n mod 4 then Fin 0 else if k < 4 then Fin 1
            else lane4 (fst (min_index_lanes (spike n) S)) k)"
    by auto
qed

text \<open>
  C7.  An array of \<open>2^32 + 8\<close> elements, all 1 but for a 0 at index \<open>2^32 + 5\<close>.  The
  lane loop finds the 0 in lane 1 and keeps its index narrowed to 32 bits, which is 5;
  the kernel returns 5, where the array holds 1, and not an index of the minimum.
\<close>

theorem min_index_narrows_index:
  "min_index (spike 4294967301) 4294967304 = 5 \<and>
   spike 4294967301 5 = Fin 1 \<and>
   spike 4294967301 4294967301 = Fin 0 \<and>
   \<not> fle (spike 4294967301 (min_index (spike 4294967301) 4294967304))
          (spike 4294967301 4294967301)"
proof -
  let ?a = "spike 4294967301"
  let ?C = "4294967304 :: nat"
  have S: "and_not3 ?C = ?C" by (simp add: and_not3_def)
  have 4: "4 \<le> ?C" "4 dvd ?C" "4294967301 < ?C" by simp_all
  obtain mv iv where l: "min_index_lanes ?a ?C = (mv, iv)"
    by (cases "min_index_lanes ?a ?C")
  have m: "(4294967301 :: nat) mod 4 = 1" by simp
  obtain m0 m1 m2 m3 where mv: "mv = V4 m0 m1 m2 m3" by (cases mv)
  obtain j0 j1 j2 j3 where iv: "iv = V4 j0 j1 j2 j3" by (cases iv)
  from spike_lanes(1) [OF 4, of 0] spike_lanes(1) [OF 4, of 1]
    spike_lanes(1) [OF 4, of 2] spike_lanes(1) [OF 4, of 3] l
  have ms: "m0 = Fin 1" "m1 = Fin 0" "m2 = Fin 1" "m3 = Fin 1"
    by (simp_all add: m mv)
  from spike_lanes(2) [OF 4] l have js: "j1 = 5"
    by (simp add: m iv)
  have c: "min_index_collapse (mv, iv) (?a 0, 0) = (Fin 0, 5)"
    by (simp add: min_index_collapse_def loop1_step loop1_done mv iv ms js spike_def)
  have "min_index ?a ?C = 5"
    by (simp add: min_index_def Let_def S l c loop1_done)
  then show ?thesis by (simp add: spike_def fle_def)
qed

text \<open>
  Below \<open>2^32 + 4\<close> elements no lane index is cut, and the returned index does hold the
  minimum of a non-empty array without NaN.
\<close>

lemma min_index_attains_minimum_below_2_32:
  assumes "0 < count" and "count < 2 ^ 32 + 4" and "\<forall>j<count. array j \<noteq> NaN"
  shows "\<forall>j<count. fle (array (min_index array count)) (array j)"
  using min_index_result(1,2) [OF assms(1) and_not3_bound [OF assms(2)] assms(3)] assms(3)
  by (simp add: fle_def)

end
